theory Spec2Isabelle
  imports Main "HOL-Library.Sublist"
begin

section \<open>The offline operation queue (mobile/lib/offlineQueue.ts)\<close>

subsection \<open>Data model\<close>

text \<open>
  \<open>payload: any\<close>: a JavaScript value as it survives \<open>JSON.stringify\<close> / \<open>JSON.parse\<close>.
  \<open>Undefined\<close> is the value of a payload that was never given and of a property an object
  does not have. The fields of an \<open>Obj\<close> are listed with their keys.
\<close>

datatype jsvalue =
    Undefined
  | Null
  | Bool bool
  | Num int
  | Str string
  | Arr "jsvalue list"
  | Obj "(string \<times> jsvalue) list"

text \<open>
  \<open>QueuedOperation['type']\<close>: the five declared kinds. TypeScript erases the union at run
  time, so a record read back from storage may carry any other string: \<open>other_type\<close>.
\<close>

datatype operation_type =
    create_product
  | update_product
  | restock
  | create_order
  | log_expense
  | other_type string

record QueuedOperation =
  op_id :: string
  op_type :: operation_type
  payload :: jsvalue
  timestamp :: nat
  retries :: nat

text \<open>What the code can throw, and what an asynchronous call can reject with.\<close>

datatype error =
    TypeError
  | NetworkError
  | UnknownOperationType operation_type
  | StorageError

text \<open>
  How a \<open>fetch\<close> call settles: it resolves with a response of some HTTP status, or it
  rejects (the network is unreachable, the platform gave up on the connection).
\<close>

datatype fetch_outcome = Resolved nat | Rejected

text \<open>The four requests \<open>executeOperation\<close> can send, with the values it puts into them.\<close>

datatype request =
    POST_products jsvalue
  | PUT_products_id jsvalue jsvalue
  | POST_products_id_restock jsvalue jsvalue
  | POST_expenses_log jsvalue

subsection \<open>executeOperation\<close>

text \<open>
  Property access \<open>v.k\<close>: a TypeError on \<open>undefined\<close> and \<open>null\<close>, the field of an
  object, \<open>undefined\<close> where there is no such field.
\<close>

fun get_prop :: "jsvalue \<Rightarrow> string \<Rightarrow> error + jsvalue" where
  "get_prop Undefined k = Inl TypeError"
| "get_prop Null k = Inl TypeError"
| "get_prop (Obj fs) k = (case map_of fs k of None \<Rightarrow> Inr Undefined | Some v \<Rightarrow> Inr v)"
| "get_prop v k = Inr Undefined"

text \<open>
  The synchronous part of \<open>executeOperation\<close>: the \<open>switch\<close> on \<open>operation.type\<close> builds
  the arguments of \<open>fetch\<close>, or throws before any request is sent.
\<close>

definition request_of :: "QueuedOperation \<Rightarrow> error + request" where
  "request_of operation =
     (case op_type operation of
        create_product \<Rightarrow> Inr (POST_products (payload operation))
      | update_product \<Rightarrow>
          (case get_prop (payload operation) ''id'' of
             Inl e \<Rightarrow> Inl e
           | Inr i \<Rightarrow> Inr (PUT_products_id i (payload operation)))
      | restock \<Rightarrow>
          (case get_prop (payload operation) ''id'' of
             Inl e \<Rightarrow> Inl e
           | Inr i \<Rightarrow>
               (case get_prop (payload operation) ''quantity'' of
                  Inl e \<Rightarrow> Inl e
                | Inr q \<Rightarrow> Inr (POST_products_id_restock i q)))
      | log_expense \<Rightarrow> Inr (POST_expenses_log (payload operation))
      | t \<Rightarrow> Inl (UnknownOperationType t))"

text \<open>
  \<open>executeOperation\<close> awaits the \<open>fetch\<close> and does not look at the response: it returns
  when the fetch resolves, whatever the status, and throws when the fetch rejects.
  The second argument is how the environment settles the fetch of this call.
\<close>

definition executeOperation :: "QueuedOperation \<Rightarrow> fetch_outcome \<Rightarrow> error + unit" where
  "executeOperation operation net =
     (case request_of operation of
        Inl e \<Rightarrow> Inl e
      | Inr r \<Rightarrow> (case net of Resolved status \<Rightarrow> Inr () | Rejected \<Rightarrow> Inl NetworkError))"

subsection \<open>The loop of processQueue\<close>

text \<open>
  The local variables of a replay pass that the loop updates. \<open>attempted\<close> is a ghost
  variable: the operations \<open>executeOperation\<close> has been called on, in call order.
\<close>

record progress =
  remaining :: "QueuedOperation list"
  success :: nat
  failed :: nat
  attempted :: "QueuedOperation list"

definition progress0 :: progress where
  "progress0 = \<lparr>remaining = [], success = 0, failed = 0, attempted = []\<rparr>"

text \<open>One iteration of \<open>for (const operation of queue)\<close>: the inner try/catch.\<close>

definition attempt :: "QueuedOperation \<Rightarrow> fetch_outcome \<Rightarrow> progress \<Rightarrow> progress" where
  "attempt operation net p =
     (let p = p\<lparr>attempted := attempted p @ [operation]\<rparr> in
      case executeOperation operation net of
        Inr _ \<Rightarrow> p\<lparr>success := success p + 1\<rparr>
      | Inl _ \<Rightarrow>
          (let operation = operation\<lparr>retries := retries operation + 1\<rparr> in
           if retries operation < 3
           then p\<lparr>remaining := remaining p @ [operation]\<rparr>
           else p\<lparr>failed := failed p + 1\<rparr>))"

text \<open>
  The whole loop over a snapshot of the queue; \<open>net k\<close> settles the fetch of the
  operation at index \<open>k\<close> of the snapshot.
\<close>

fun processOps ::
  "(nat \<Rightarrow> fetch_outcome) \<Rightarrow> nat \<Rightarrow> QueuedOperation list \<Rightarrow> progress \<Rightarrow> progress" where
  "processOps net k [] p = p"
| "processOps net k (operation # queue) p =
     processOps net (Suc k) queue (attempt operation (net k) p)"

subsection \<open>The queue object and its asynchronous calls\<close>

text \<open>
  JavaScript runs the class on one thread; an \<open>async\<close> method runs until its next
  \<open>await\<close>, and other calls and events run while it is suspended. The model keeps every
  suspended call as a \<open>task\<close>, named after the method and the call it is waiting on, with
  the local variables it needs when it resumes.
\<close>

datatype task =
    PQ_getQueue
  | PQ_execute "QueuedOperation list" "QueuedOperation list" progress
  | PQ_setItem "QueuedOperation list" progress
  | ENQ_getQueue QueuedOperation
  | ENQ_setItem QueuedOperation "QueuedOperation list"
  | CLR_removeItem

text \<open>
  \<open>PQ_execute queue todo p\<close>: \<open>processQueue\<close> suspended at \<open>await this.executeOperation\<close>
  on the head of \<open>todo\<close>, the part of \<open>queue\<close> the loop has not finished with.
\<close>

datatype storage_call = GetItem | SetItem "QueuedOperation list" | RemoveItem

datatype log_line =
    Enqueued operation_type string
  | Error_reading_queue
  | Synced operation_type string
  | Failed_after_3_retries string

datatype resolution = Tally nat nat | OperationId string | Void

text \<open>
  The fields of the class (\<open>isOnline\<close>, \<open>syncInProgress\<close>, \<open>listeners\<close>), the item of
  AsyncStorage under \<open>QUEUE_KEY\<close> (\<open>None\<close>: no item; the JSON text is identified with the
  list it encodes), and the bookkeeping of the asynchronous calls: the suspended tasks by
  promise, the number of promises created, how each settled promise settled. Ghost
  fields record the AsyncStorage calls issued, the console output and the notifications
  given to the subscribed listeners. A listener is known by a number; it is taken to
  return normally and to leave the queue alone.
\<close>

record state =
  isOnline :: bool
  syncInProgress :: bool
  listeners :: "nat list"
  storage :: "QueuedOperation list option"
  tasks :: "nat \<rightharpoonup> task"
  promises :: nat
  settled :: "nat \<rightharpoonup> error + resolution"
  storageCalls :: "storage_call list"
  console :: "log_line list"
  notified :: "(nat \<times> bool) list"

text \<open>The constructed singleton, over whatever an earlier run of the app left in storage.\<close>

definition init :: "QueuedOperation list option \<Rightarrow> state" where
  "init st =
     \<lparr>isOnline = True, syncInProgress = False, listeners = [], storage = st,
      tasks = Map.empty, promises = 0, settled = Map.empty, storageCalls = [],
      console = [], notified = []\<rparr>"

text \<open>
  A call of \<open>processQueue\<close> up to its first \<open>await\<close>: the guard settles the promise at
  once; otherwise the flag is set and \<open>getQueue\<close> issues its \<open>getItem\<close>.
\<close>

definition processQueue_call :: "state \<Rightarrow> state" where
  "processQueue_call s =
     (let p = promises s; s = s\<lparr>promises := Suc p\<rparr> in
      if syncInProgress s \<or> \<not> isOnline s
      then s\<lparr>settled := (settled s)(p \<mapsto> Inr (Tally 0 0))\<rparr>
      else s\<lparr>syncInProgress := True,
             tasks := (tasks s)(p \<mapsto> PQ_getQueue),
             storageCalls := storageCalls s @ [GetItem]\<rparr>)"

text \<open>
  \<open>getQueue\<close> once its \<open>getItem\<close> has settled: the stored list, the empty list when
  there is no item, and the empty list with an error on the console when reading failed
  (\<open>getItem\<close> rejected, or \<open>JSON.parse\<close> threw: the \<open>catch\<close> takes both).
\<close>

definition getQueue :: "bool \<Rightarrow> state \<Rightarrow> QueuedOperation list \<times> state" where
  "getQueue ok s =
     (if ok then (case storage s of None \<Rightarrow> [] | Some queue \<Rightarrow> queue, s)
      else ([], s\<lparr>console := console s @ [Error_reading_queue]\<rparr>))"

text \<open>
  The head of the loop: with nothing left to iterate over, \<open>setItem\<close> is issued with
  \<open>remaining\<close>; otherwise \<open>executeOperation\<close> is called on the next operation.
\<close>

definition continue_pass ::
  "nat \<Rightarrow> QueuedOperation list \<Rightarrow> QueuedOperation list \<Rightarrow> progress \<Rightarrow> state \<Rightarrow> state" where
  "continue_pass p queue todo prog s =
     (case todo of
        [] \<Rightarrow> s\<lparr>tasks := (tasks s)(p \<mapsto> PQ_setItem queue prog),
                storageCalls := storageCalls s @ [SetItem (remaining prog)]\<rparr>
      | _ # _ \<Rightarrow> s\<lparr>tasks := (tasks s)(p \<mapsto> PQ_execute queue todo prog)\<rparr>)"

text \<open>What one iteration prints.\<close>

definition attempt_log :: "QueuedOperation \<Rightarrow> fetch_outcome \<Rightarrow> log_line list" where
  "attempt_log operation net =
     (case executeOperation operation net of
        Inr _ \<Rightarrow> [Synced (op_type operation) (op_id operation)]
      | Inl _ \<Rightarrow>
          (if retries operation + 1 < 3 then []
           else [Failed_after_3_retries (op_id operation)]))"

text \<open>The awaited \<open>executeOperation\<close> of the pass with promise \<open>p\<close> settles.\<close>

definition execute_settles :: "nat \<Rightarrow> fetch_outcome \<Rightarrow> state \<Rightarrow> state" where
  "execute_settles p net s =
     (case tasks s p of
        Some (PQ_execute queue (operation # todo) prog) \<Rightarrow>
          continue_pass p queue todo (attempt operation net prog)
            (s\<lparr>console := console s @ attempt_log operation net\<rparr>)
      | _ \<Rightarrow> s)"

text \<open>
  The AsyncStorage call that the task with promise \<open>p\<close> is waiting on settles: it took
  effect and resolved (\<open>ok\<close>), or it rejected. A read or write takes effect at this step.
\<close>

definition storage_settles :: "nat \<Rightarrow> bool \<Rightarrow> state \<Rightarrow> state" where
  "storage_settles p ok s =
     (case tasks s p of
        None \<Rightarrow> s
      | Some PQ_getQueue \<Rightarrow>
          (let (queue, s) = getQueue ok s in continue_pass p queue queue progress0 s)
      | Some (PQ_execute queue todo prog) \<Rightarrow> s
      | Some (PQ_setItem queue prog) \<Rightarrow>
          (let s = s\<lparr>tasks := (tasks s)(p := None), syncInProgress := False\<rparr> in
           if ok
           then s\<lparr>storage := Some (remaining prog),
                  settled := (settled s)(p \<mapsto> Inr (Tally (success prog) (failed prog)))\<rparr>
           else s\<lparr>settled := (settled s)(p \<mapsto> Inl StorageError)\<rparr>)
      | Some (ENQ_getQueue operation) \<Rightarrow>
          (let (queue, s) = getQueue ok s; queue = queue @ [operation] in
           s\<lparr>tasks := (tasks s)(p \<mapsto> ENQ_setItem operation queue),
             storageCalls := storageCalls s @ [SetItem queue]\<rparr>)
      | Some (ENQ_setItem operation queue) \<Rightarrow>
          (let s = s\<lparr>tasks := (tasks s)(p := None)\<rparr> in
           if ok
           then (let s = s\<lparr>storage := Some queue,
                           console := console s @
                             [Enqueued (op_type operation) (op_id operation)]\<rparr>;
                     s = (if isOnline s then processQueue_call s else s)
                 in s\<lparr>settled := (settled s)(p \<mapsto> Inr (OperationId (op_id operation)))\<rparr>)
           else s\<lparr>settled := (settled s)(p \<mapsto> Inl StorageError)\<rparr>)
      | Some CLR_removeItem \<Rightarrow>
          (let s = s\<lparr>tasks := (tasks s)(p := None)\<rparr> in
           if ok then s\<lparr>storage := None, settled := (settled s)(p \<mapsto> Inr Void)\<rparr>
           else s\<lparr>settled := (settled s)(p \<mapsto> Inl StorageError)\<rparr>))"

text \<open>Decimal digits of a number, as a template literal prints \<open>Date.now()\<close>.\<close>

fun decimal :: "nat \<Rightarrow> string" where
  "decimal n =
     (if n < 10 then [char_of (48 + n)]
      else decimal (n div 10) @ [char_of (48 + n mod 10)])"

declare decimal.simps [simp del]

text \<open>
  The record \<open>enqueue\<close> builds, and the call of \<open>enqueue\<close> up to its first \<open>await\<close>.
  The environment supplies the two readings of \<open>Date.now()\<close> and the characters taken
  from \<open>Math.random()\<close>.
\<close>

definition new_operation ::
  "operation_type \<Rightarrow> jsvalue \<Rightarrow> nat \<Rightarrow> string \<Rightarrow> nat \<Rightarrow> QueuedOperation" where
  "new_operation ty pl now rnd now' =
     \<lparr>op_id = decimal now @ ''_'' @ rnd, op_type = ty, payload = pl,
      timestamp = now', retries = 0\<rparr>"

definition enqueue_call ::
  "operation_type \<Rightarrow> jsvalue \<Rightarrow> nat \<Rightarrow> string \<Rightarrow> nat \<Rightarrow> state \<Rightarrow> state" where
  "enqueue_call ty pl now rnd now' s =
     (let operation = new_operation ty pl now rnd now';
          p = promises s
      in s\<lparr>promises := Suc p,
           tasks := (tasks s)(p \<mapsto> ENQ_getQueue operation),
           storageCalls := storageCalls s @ [GetItem]\<rparr>)"

definition clearQueue_call :: "state \<Rightarrow> state" where
  "clearQueue_call s =
     (let p = promises s in
      s\<lparr>promises := Suc p,
        tasks := (tasks s)(p \<mapsto> CLR_removeItem),
        storageCalls := storageCalls s @ [RemoveItem]\<rparr>)"

text \<open>
  The listener given to \<open>NetInfo.addEventListener\<close>, called with \<open>state.isConnected\<close>
  (\<open>boolean | null\<close>).
\<close>

definition netinfo_listener :: "bool option \<Rightarrow> state \<Rightarrow> state" where
  "netinfo_listener isConnected s =
     (let wasOffline = \<not> isOnline s;
          s = s\<lparr>isOnline := (case isConnected of None \<Rightarrow> True | Some b \<Rightarrow> b)\<rparr>;
          s = s\<lparr>notified := notified s @ map (\<lambda>l. (l, isOnline s)) (listeners s)\<rparr>
      in if wasOffline \<and> isOnline s then processQueue_call s else s)"

definition onNetworkChange :: "nat \<Rightarrow> state \<Rightarrow> state" where
  "onNetworkChange callback s = s\<lparr>listeners := listeners s @ [callback]\<rparr>"

definition unsubscribe :: "nat \<Rightarrow> state \<Rightarrow> state" where
  "unsubscribe callback s = s\<lparr>listeners := filter (\<lambda>l. l \<noteq> callback) (listeners s)\<rparr>"

subsection \<open>Executions\<close>

datatype event =
    Call_processQueue
  | Call_enqueue operation_type jsvalue nat string nat
  | Call_clearQueue
  | Call_onNetworkChange nat
  | Call_unsubscribe nat
  | NetInfo_event "bool option"
  | Storage_settles nat bool
  | Execute_settles nat fetch_outcome

fun step :: "event \<Rightarrow> state \<Rightarrow> state" where
  "step Call_processQueue s = processQueue_call s"
| "step (Call_enqueue ty pl now rnd now') s = enqueue_call ty pl now rnd now' s"
| "step Call_clearQueue s = clearQueue_call s"
| "step (Call_onNetworkChange callback) s = onNetworkChange callback s"
| "step (Call_unsubscribe callback) s = unsubscribe callback s"
| "step (NetInfo_event isConnected) s = netinfo_listener isConnected s"
| "step (Storage_settles p ok) s = storage_settles p ok s"
| "step (Execute_settles p net) s = execute_settles p net s"

text \<open>The events of a list, first to last.\<close>

fun run :: "event list \<Rightarrow> state \<Rightarrow> state" where
  "run [] s = s"
| "run (e # es) s = run es (step e s)"

inductive reachable :: "state \<Rightarrow> bool" where
  start: "reachable (init st)"
| after: "reachable s \<Longrightarrow> reachable (step e s)"

subsection \<open>Awaited calls\<close>

text \<open>
  \<open>await offlineQueue.processQueue()\<close> with nothing else scheduled before it returns:
  the call, its read settling (\<open>rd\<close>: resolved), one \<open>executeOperation\<close> settling for
  each operation read (\<open>net k\<close> for the one at index \<open>k\<close>), its write settling (\<open>wr\<close>).
\<close>

definition processQueue :: "bool \<Rightarrow> (nat \<Rightarrow> fetch_outcome) \<Rightarrow> bool \<Rightarrow> state \<Rightarrow> state" where
  "processQueue rd net wr s =
     (let p = promises s; n = length (fst (getQueue rd s)) in
      run (Call_processQueue # Storage_settles p rd #
           map (\<lambda>k. Execute_settles p (net k)) [0..<n] @ [Storage_settles p wr]) s)"

text \<open>
  \<open>await offlineQueue.enqueue(type, payload)\<close>, likewise: the call, its read, its write.
\<close>

definition enqueue ::
  "operation_type \<Rightarrow> jsvalue \<Rightarrow> nat \<Rightarrow> string \<Rightarrow> nat \<Rightarrow> bool \<Rightarrow> bool \<Rightarrow> state \<Rightarrow> state" where
  "enqueue ty pl now rnd now' rd wr s =
     (let p = promises s in
      run [Call_enqueue ty pl now rnd now', Storage_settles p rd, Storage_settles p wr] s)"

text \<open>
  A sequence of awaited \<open>enqueue\<close> calls, each given by its arguments, the clock and
  random values it draws, and whether its read and its write of storage resolve; the
  record each call builds; and whether storage worked for a call.
\<close>

fun enqueue_seq ::
  "(operation_type \<times> jsvalue \<times> nat \<times> string \<times> nat \<times> bool \<times> bool) list \<Rightarrow> state \<Rightarrow> state" where
  "enqueue_seq [] s = s"
| "enqueue_seq ((ty, pl, now, rnd, now', rd, wr) # calls) s =
     enqueue_seq calls (enqueue ty pl now rnd now' rd wr s)"

definition operation_of ::
  "operation_type \<times> jsvalue \<times> nat \<times> string \<times> nat \<times> bool \<times> bool \<Rightarrow> QueuedOperation" where
  "operation_of call = (case call of (ty, pl, now, rnd, now', rd, wr) \<Rightarrow> new_operation ty pl now rnd now')"

definition storage_worked ::
  "operation_type \<times> jsvalue \<times> nat \<times> string \<times> nat \<times> bool \<times> bool \<Rightarrow> bool" where
  "storage_worked call = (case call of (ty, pl, now, rnd, now', rd, wr) \<Rightarrow> rd \<and> wr)"

subsection \<open>Notions used by the properties\<close>

text \<open>
  The list a successful read returns, the progress of a whole pass over a snapshot, and
  the console lines of the loop.
\<close>

definition stored :: "state \<Rightarrow> QueuedOperation list" where
  "stored s = (case storage s of None \<Rightarrow> [] | Some queue \<Rightarrow> queue)"

definition pass_outcome :: "(nat \<Rightarrow> fetch_outcome) \<Rightarrow> QueuedOperation list \<Rightarrow> progress" where
  "pass_outcome net queue = processOps net 0 queue progress0"

fun processLog :: "(nat \<Rightarrow> fetch_outcome) \<Rightarrow> nat \<Rightarrow> QueuedOperation list \<Rightarrow> log_line list" where
  "processLog net k [] = []"
| "processLog net k (operation # queue) =
     attempt_log operation (net k) @ processLog net (Suc k) queue"

text \<open>
  A replay pass is running under promise \<open>p\<close> when a \<open>processQueue\<close> call that went
  past its guard is suspended there.
\<close>

fun is_pass :: "task \<Rightarrow> bool" where
  "is_pass PQ_getQueue = True"
| "is_pass (PQ_execute queue todo prog) = True"
| "is_pass (PQ_setItem queue prog) = True"
| "is_pass t = False"

definition running :: "(nat \<rightharpoonup> task) \<Rightarrow> nat \<Rightarrow> bool" where
  "running T p = (case T p of None \<Rightarrow> False | Some t \<Rightarrow> is_pass t)"

definition running_pass :: "state \<Rightarrow> nat \<Rightarrow> bool" where
  "running_pass s p = running (tasks s) p"

text \<open>
  The invariant of mutual exclusion: suspended calls have promises already created, the
  flag \<open>syncInProgress\<close> is set exactly while a replay pass is running, and no two
  passes run.
\<close>

definition exclusive :: "(nat \<rightharpoonup> task) \<Rightarrow> nat \<Rightarrow> bool \<Rightarrow> bool" where
  "exclusive T n flag \<longleftrightarrow>
     (\<forall>p. T p \<noteq> None \<longrightarrow> p < n) \<and>
     (flag \<longleftrightarrow> (\<exists>p. running T p)) \<and>
     (\<forall>p q. running T p \<longrightarrow> running T q \<longrightarrow> p = q)"

definition inv :: "state \<Rightarrow> bool" where
  "inv s = exclusive (tasks s) (promises s) (syncInProgress s)"

text \<open>
  The invariant of a suspended pass: the loop is suspended on an operation, the part
  of \<open>queue\<close> before \<open>todo\<close> has been processed with some settlement of each fetch, and
  a pass waiting for its write has processed all of \<open>queue\<close>.
\<close>

fun sound_task :: "task \<Rightarrow> bool" where
  "sound_task (PQ_execute queue todo prog) \<longleftrightarrow>
     todo \<noteq> [] \<and> (\<exists>seen net. queue = seen @ todo \<and> prog = processOps net 0 seen progress0)"
| "sound_task (PQ_setItem queue prog) \<longleftrightarrow> (\<exists>net. prog = pass_outcome net queue)"
| "sound_task t \<longleftrightarrow> True"

definition sound_tasks :: "(nat \<rightharpoonup> task) \<Rightarrow> bool" where
  "sound_tasks T \<longleftrightarrow> (\<forall>p t. T p = Some t \<longrightarrow> sound_task t)"

definition sound :: "state \<Rightarrow> bool" where
  "sound s = sound_tasks (tasks s)"

text \<open>
  No promise has rejected with anything but a storage error.
\<close>

definition only_storage_errors :: "state \<Rightarrow> bool" where
  "only_storage_errors s \<longleftrightarrow> (\<forall>p e. settled s p = Some (Inl e) \<longrightarrow> e = StorageError)"

text \<open>
  The snapshot a suspended pass holds in its local \<open>queue\<close>; \<open>keeps s p queue\<close>: the
  call with promise \<open>p\<close>, while suspended, holds the snapshot \<open>queue\<close>.
\<close>

fun snapshot :: "task \<Rightarrow> QueuedOperation list option" where
  "snapshot (PQ_execute queue todo prog) = Some queue"
| "snapshot (PQ_setItem queue prog) = Some queue"
| "snapshot t = None"

definition keeps :: "state \<Rightarrow> nat \<Rightarrow> QueuedOperation list \<Rightarrow> bool" where
  "keeps s p queue \<longleftrightarrow>
     p < promises s \<and> (case tasks s p of None \<Rightarrow> True | Some t \<Rightarrow> snapshot t = Some queue)"

text \<open>
  The guard of \<open>processQueue\<close> lets a call through; and the part of a pass after the
  operation that follows \<open>xs\<close> in the snapshot, with counters starting from zero.
\<close>

definition ready :: "state \<Rightarrow> bool" where
  "ready s \<longleftrightarrow> isOnline s \<and> \<not> syncInProgress s"

definition pass_after ::
  "(nat \<Rightarrow> fetch_outcome) \<Rightarrow> QueuedOperation list \<Rightarrow> QueuedOperation list \<Rightarrow> progress" where
  "pass_after net xs ys = processOps net (Suc (length xs)) ys progress0"

text \<open>
  An awaited pass up to its final write, started by \<open>trigger\<close> (a call of
  \<open>processQueue\<close>, or the NetInfo event that makes one): the read resolves and every
  awaited \<open>executeOperation\<close> settles. \<open>attempts\<close> are the operations that pass has
  called \<open>executeOperation\<close> on when it reaches its write, as the machine recorded them;
  \<open>survivors\<close> the operations a pass over \<open>xs\<close> keeps.
\<close>

definition pass_to_write :: "event \<Rightarrow> (nat \<Rightarrow> fetch_outcome) \<Rightarrow> state \<Rightarrow> state" where
  "pass_to_write trigger net s =
     (let p = promises s; n = length (stored s) in
      run (trigger # Storage_settles p True # map (\<lambda>k. Execute_settles p (net k)) [0..<n]) s)"

definition attempts :: "event \<Rightarrow> (nat \<Rightarrow> fetch_outcome) \<Rightarrow> state \<Rightarrow> QueuedOperation list" where
  "attempts trigger net s =
     (case tasks (pass_to_write trigger net s) (promises s) of
        Some (PQ_setItem queue prog) \<Rightarrow> attempted prog
      | _ \<Rightarrow> [])"


text \<open>Two operations for the concrete runs below.\<close>

definition expense :: QueuedOperation where
  "expense = \<lparr>op_id = ''1_a'', op_type = log_expense,
     payload = Obj [(''amount'', Num 5000)], timestamp = 1, retries = 0\<rparr>"

definition unwired :: QueuedOperation where
  "unwired = \<lparr>op_id = ''2_b'', op_type = create_order,
     payload = Obj [(''total'', Num 100)], timestamp = 2, retries = 0\<rparr>"


definition overlapping_enqueues :: "event list" where
  "overlapping_enqueues =
     [NetInfo_event (Some False),
      Call_enqueue restock Null 12 ''a'' 12, Call_enqueue log_expense Null 13 ''b'' 13,
      Storage_settles 0 True, Storage_settles 1 True,
      Storage_settles 0 True, Storage_settles 1 True]"

section \<open>Lemmas\<close>

subsection \<open>The loop\<close>

lemma executeOperation_retries [simp]:
  "executeOperation (operation\<lparr>retries := n\<rparr>) net = executeOperation operation net"
  by (simp add: executeOperation_def request_of_def split: operation_type.split sum.split)

lemma attempt_success:
  "executeOperation operation net = Inr u \<Longrightarrow>
   attempt operation net p = p\<lparr>attempted := attempted p @ [operation], success := success p + 1\<rparr>"
  by (simp add: attempt_def)

lemma attempt_failure:
  "executeOperation operation net = Inl e \<Longrightarrow>
   attempt operation net p =
     (if retries operation + 1 < 3
      then p\<lparr>attempted := attempted p @ [operation],
             remaining := remaining p @ [operation\<lparr>retries := retries operation + 1\<rparr>]\<rparr>
      else p\<lparr>attempted := attempted p @ [operation], failed := failed p + 1\<rparr>)"
  by (simp add: attempt_def Let_def)

lemma processOps_append:
  "processOps net k (xs @ ys) p = processOps net (k + length xs) ys (processOps net k xs p)"
  by (induction xs arbitrary: k p) simp_all

lemma processOps_cong:
  "(\<And>i. k \<le> i \<Longrightarrow> i < k + length xs \<Longrightarrow> net i = net' i) \<Longrightarrow>
   processOps net k xs p = processOps net' k xs p"
  by (induction xs arbitrary: k p) simp_all

lemma attempt_attempted: "attempted (attempt operation net p) = attempted p @ [operation]"
  by (simp add: attempt_def Let_def split: sum.splits)

lemma processOps_attempted: "attempted (processOps net k xs p) = attempted p @ xs"
  by (induction xs arbitrary: k p) (simp_all add: attempt_attempted)

lemma attempt_acc:
  "remaining (attempt operation net p) = remaining p @ remaining (attempt operation net progress0)"
  "success (attempt operation net p) = success p + success (attempt operation net progress0)"
  "failed (attempt operation net p) = failed p + failed (attempt operation net progress0)"
  by (simp_all add: attempt_def Let_def progress0_def split: sum.splits)

lemma processOps_remaining:
  "remaining (processOps net k xs p) = remaining p @ remaining (processOps net k xs progress0)"
proof (induction xs arbitrary: k p)
  case Nil
  show ?case by (simp add: progress0_def)
next
  case (Cons x xs)
  show ?case
    using Cons.IH [of "Suc k" "attempt x (net k) p"]
      Cons.IH [of "Suc k" "attempt x (net k) progress0"] attempt_acc(1) [of x "net k" p]
    by simp
qed

lemma processOps_success:
  "success (processOps net k xs p) = success p + success (processOps net k xs progress0)"
proof (induction xs arbitrary: k p)
  case Nil
  show ?case by (simp add: progress0_def)
next
  case (Cons x xs)
  show ?case
    using Cons.IH [of "Suc k" "attempt x (net k) p"]
      Cons.IH [of "Suc k" "attempt x (net k) progress0"] attempt_acc(2) [of x "net k" p]
    by simp
qed

lemma processOps_failed:
  "failed (processOps net k xs p) = failed p + failed (processOps net k xs progress0)"
proof (induction xs arbitrary: k p)
  case Nil
  show ?case by (simp add: progress0_def)
next
  case (Cons x xs)
  show ?case
    using Cons.IH [of "Suc k" "attempt x (net k) p"]
      Cons.IH [of "Suc k" "attempt x (net k) progress0"] attempt_acc(3) [of x "net k" p]
    by simp
qed

lemma attempt_ids:
  "op_id ` set (remaining (attempt operation net p)) \<subseteq> op_id ` set (remaining p) \<union> {op_id operation}"
  by (auto simp add: attempt_def Let_def split: sum.splits)

lemma processOps_ids:
  "op_id ` set (remaining (processOps net k xs p)) \<subseteq> op_id ` set (remaining p) \<union> op_id ` set xs"
proof (induction xs arbitrary: k p)
  case Nil
  show ?case by simp
next
  case (Cons x xs)
  show ?case using Cons.IH [of "Suc k" "attempt x (net k) p"] attempt_ids [of x "net k" p]
    by auto
qed

subsection \<open>Mutual exclusion is invariant\<close>

lemma running_upd [simp]: "running (T(p \<mapsto> t)) q = (if q = p then is_pass t else running T q)"
  by (simp add: running_def)

lemma running_del [simp]: "running (T(p := None)) q = (q \<noteq> p \<and> running T q)"
  by (simp add: running_def)

lemma exclusive_empty: "exclusive Map.empty 0 False"
  by (simp add: exclusive_def running_def)

lemma exclusive_Suc: "exclusive T n flag \<Longrightarrow> exclusive T (Suc n) flag"
  by (auto simp add: exclusive_def less_Suc_eq)

lemma exclusive_fresh: "exclusive T n flag \<Longrightarrow> T n = None"
  by (auto simp add: exclusive_def)

lemma exclusive_start:
  assumes "exclusive T n False"
  shows "exclusive (T(n \<mapsto> PQ_getQueue)) (Suc n) True"
proof -
  from assms have no: "\<not> running T q" for q by (simp add: exclusive_def)
  from assms have lt: "T p \<noteq> None \<Longrightarrow> p < n" for p by (simp add: exclusive_def)
  show ?thesis
    unfolding exclusive_def
  proof (intro conjI allI impI)
    fix p assume "(T(n \<mapsto> PQ_getQueue)) p \<noteq> None"
    then show "p < Suc n" using lt [of p] by (cases "p = n") simp_all
  next
    show "True \<longleftrightarrow> (\<exists>p. running (T(n \<mapsto> PQ_getQueue)) p)"
      by (simp add: exI [of _ n])
  next
    fix p q assume "running (T(n \<mapsto> PQ_getQueue)) p" "running (T(n \<mapsto> PQ_getQueue)) q"
    then show "p = q" using no by (simp split: if_splits)
  qed
qed

lemma exclusive_new:
  assumes "exclusive T n flag" "\<not> is_pass t"
  shows "exclusive (T(n \<mapsto> t)) (Suc n) flag"
proof -
  from assms(1) have fr: "T n = None" by (rule exclusive_fresh)
  then have nr: "\<not> running T n" by (simp add: running_def)
  have r: "running (T(n \<mapsto> t)) q = running T q" for q
    using assms(2) nr by simp
  from assms(1) have lt: "T p \<noteq> None \<Longrightarrow> p < n" for p by (simp add: exclusive_def)
  have "(T(n \<mapsto> t)) p \<noteq> None \<Longrightarrow> p < Suc n" for p
    using lt [of p] by (cases "p = n") simp_all
  then show ?thesis
    using assms(1) unfolding exclusive_def r by blast
qed

lemma exclusive_keep:
  assumes "exclusive T n flag" "T p = Some t" "is_pass t' = is_pass t"
  shows "exclusive (T(p \<mapsto> t')) n flag"
proof -
  have r: "running (T(p \<mapsto> t')) q = running T q" for q
    using assms(2,3) by (simp add: running_def)
  from assms(1) have lt: "T q \<noteq> None \<Longrightarrow> q < n" for q by (simp add: exclusive_def)
  have "(T(p \<mapsto> t')) q \<noteq> None \<Longrightarrow> q < n" for q
    using lt [of q] assms(2) by (cases "q = p") simp_all
  then show ?thesis
    using assms(1) unfolding exclusive_def r by blast
qed

lemma exclusive_finish:
  assumes "exclusive T n flag" "T p = Some t" "is_pass t"
  shows "exclusive (T(p := None)) n False"
proof -
  have rp: "running T p" using assms(2,3) by (simp add: running_def)
  from assms(1) have only: "running T q \<Longrightarrow> q = p" for q
    using rp by (simp add: exclusive_def)
  from assms(1) have lt: "T q \<noteq> None \<Longrightarrow> q < n" for q by (simp add: exclusive_def)
  have "(T(p := None)) q \<noteq> None \<Longrightarrow> q < n" for q
    using lt [of q] by (cases "q = p") simp_all
  moreover have "\<not> running (T(p := None)) q" for q
    using only [of q] by auto
  ultimately show ?thesis
    unfolding exclusive_def by blast
qed

lemma exclusive_drop:
  assumes "exclusive T n flag" "T p = Some t" "\<not> is_pass t"
  shows "exclusive (T(p := None)) n flag"
proof -
  have nr: "\<not> running T p" using assms(2,3) by (simp add: running_def)
  have r: "running (T(p := None)) q = running T q" for q
    using nr by auto
  from assms(1) have lt: "T q \<noteq> None \<Longrightarrow> q < n" for q by (simp add: exclusive_def)
  have "(T(p := None)) q \<noteq> None \<Longrightarrow> q < n" for q
    using lt [of q] by (cases "q = p") simp_all
  then show ?thesis
    using assms(1) unfolding exclusive_def r by blast
qed

lemma exclusive_flag: "exclusive T n flag \<Longrightarrow> T p = Some t \<Longrightarrow> is_pass t \<Longrightarrow> flag"
  by (auto simp add: exclusive_def running_def split: option.splits)

lemma inv_init: "inv (init st)"
  by (simp add: inv_def init_def exclusive_empty)

lemma inv_processQueue_call: "inv s \<Longrightarrow> inv (processQueue_call s)"
  by (auto simp add: inv_def processQueue_call_def Let_def
      intro: exclusive_Suc exclusive_start)

lemma inv_enqueue_call: "inv s \<Longrightarrow> inv (enqueue_call ty pl now rnd now' s)"
  by (simp add: inv_def enqueue_call_def Let_def exclusive_new)

lemma inv_clearQueue_call: "inv s \<Longrightarrow> inv (clearQueue_call s)"
  by (simp add: inv_def clearQueue_call_def Let_def exclusive_new)

lemma inv_netinfo_listener: "inv s \<Longrightarrow> inv (netinfo_listener c s)"
proof -
  assume a: "inv s"
  have "inv (s\<lparr>isOnline := b, notified := n\<rparr>)" for b n
    using a by (simp add: inv_def)
  then show ?thesis
    by (simp add: netinfo_listener_def Let_def inv_processQueue_call)
qed

lemma inv_continue_pass:
  "inv s \<Longrightarrow> tasks s p = Some t \<Longrightarrow> is_pass t \<Longrightarrow> inv (continue_pass p queue todo prog s)"
  by (cases todo) (simp_all add: inv_def continue_pass_def exclusive_keep)

lemma inv_execute_settles: "inv s \<Longrightarrow> inv (execute_settles p net s)"
proof -
  assume a: "inv s"
  have c: "inv (s\<lparr>console := c\<rparr>)" for c
    using a by (simp add: inv_def)
  show ?thesis
    using a
    by (auto simp add: execute_settles_def intro!: inv_continue_pass c
        split: option.splits task.splits list.splits)
qed

lemma inv_getQueue: "inv s \<Longrightarrow> inv (snd (getQueue ok s))"
  by (simp add: getQueue_def inv_def)

lemma tasks_getQueue [simp]: "tasks (snd (getQueue ok s)) = tasks s"
  by (simp add: getQueue_def)

lemma inv_storage_settles: "inv s \<Longrightarrow> inv (storage_settles p ok s)"
proof (cases "tasks s p")
  case None
  assume "inv s"
  with None show ?thesis by (simp add: storage_settles_def)
next
  case (Some t)
  assume a: "inv s"
  show ?thesis
  proof (cases t)
    case PQ_getQueue
    with Some a show ?thesis
      using inv_continue_pass [OF inv_getQueue [OF a], of ok p PQ_getQueue]
      by (simp add: storage_settles_def split_def Let_def)
  next
    case (PQ_execute queue todo prog)
    with Some a show ?thesis by (simp add: storage_settles_def)
  next
    case (PQ_setItem queue prog)
    with Some a show ?thesis
      using exclusive_finish [of "tasks s" "promises s" "syncInProgress s" p t]
      by (simp add: storage_settles_def inv_def Let_def)
  next
    case (ENQ_getQueue operation)
    with Some a show ?thesis
      using exclusive_keep [of "tasks s" "promises s" "syncInProgress s" p t]
      by (simp add: storage_settles_def inv_def split_def getQueue_def Let_def)
  next
    case (ENQ_setItem operation queue)
    have d: "exclusive ((tasks s)(p := None)) (promises s) (syncInProgress s)"
      using exclusive_drop [of "tasks s" "promises s" "syncInProgress s" p t] a Some ENQ_setItem
      by (simp add: inv_def)
    have "inv (processQueue_call (s\<lparr>tasks := (tasks s)(p := None), storage := st, console := c\<rparr>))"
      for st c
      by (rule inv_processQueue_call) (simp add: inv_def d)
    then show ?thesis
      using Some ENQ_setItem d
      by (simp add: storage_settles_def Let_def inv_def)
  next
    case CLR_removeItem
    with Some a show ?thesis
      using exclusive_drop [of "tasks s" "promises s" "syncInProgress s" p t]
      by (simp add: storage_settles_def inv_def Let_def)
  qed
qed

lemma inv_listeners: "inv (s\<lparr>listeners := l\<rparr>) = inv s"
  by (simp add: inv_def)

lemma inv_step: "inv s \<Longrightarrow> inv (step e s)"
  by (cases e)
    (simp_all add: inv_processQueue_call inv_enqueue_call inv_clearQueue_call
      inv_netinfo_listener inv_storage_settles inv_execute_settles
      onNetworkChange_def unsubscribe_def inv_listeners)

lemma reachable_inv: "reachable s \<Longrightarrow> inv s"
  by (induction rule: reachable.induct) (simp_all add: inv_init inv_step)

lemma reachable_run: "reachable s \<Longrightarrow> reachable (run es s)"
  by (induction es arbitrary: s) (simp_all add: reachable.after)

subsection \<open>A suspended pass has processed a prefix of its snapshot\<close>

lemma sound_attempt:
  assumes "sound_task (PQ_execute queue (operation # todo) prog)"
  shows "sound_task (case todo of [] \<Rightarrow> PQ_setItem queue (attempt operation net prog)
                      | _ # _ \<Rightarrow> PQ_execute queue todo (attempt operation net prog))"
proof -
  from assms obtain seen net0 where
    q: "queue = seen @ operation # todo" and p: "prog = processOps net0 0 seen progress0"
    by auto
  define net' where "net' = net0(length seen := net)"
  have "processOps net' 0 seen progress0 = processOps net0 0 seen progress0"
    by (rule processOps_cong) (simp add: net'_def)
  then have a: "attempt operation net prog = processOps net' 0 (seen @ [operation]) progress0"
    by (simp add: processOps_append p net'_def)
  have q': "queue = (seen @ [operation]) @ todo" using q by simp
  show ?thesis
  proof (cases todo)
    case Nil
    then show ?thesis using a q by (auto simp add: pass_outcome_def)
  next
    case (Cons x xs)
    then show ?thesis using a q' by (simp only: list.case sound_task.simps) blast
  qed
qed

lemma sound_tasks_upd: "sound_tasks T \<Longrightarrow> sound_task t \<Longrightarrow> sound_tasks (T(p \<mapsto> t))"
  by (simp add: sound_tasks_def)

lemma sound_tasks_del: "sound_tasks T \<Longrightarrow> sound_tasks (T(p := None))"
  by (simp add: sound_tasks_def)

lemma sound_tasksD: "sound_tasks T \<Longrightarrow> T p = Some t \<Longrightarrow> sound_task t"
  by (simp add: sound_tasks_def)

lemma sound_init: "sound (init st)"
  by (simp add: sound_def sound_tasks_def init_def)

lemma sound_processQueue_call: "sound s \<Longrightarrow> sound (processQueue_call s)"
  by (simp add: sound_def processQueue_call_def Let_def sound_tasks_upd)

lemma sound_netinfo_listener: "sound s \<Longrightarrow> sound (netinfo_listener c s)"
proof -
  assume a: "sound s"
  have "sound (s\<lparr>isOnline := b, notified := n\<rparr>)" for b n
    using a by (simp add: sound_def)
  then show ?thesis
    by (simp add: netinfo_listener_def Let_def sound_processQueue_call)
qed

lemma sound_execute_settles: "sound s \<Longrightarrow> sound (execute_settles p net s)"
proof (cases "tasks s p")
  case None
  assume "sound s"
  with None show ?thesis by (simp add: execute_settles_def)
next
  case (Some t)
  assume a: "sound s"
  show ?thesis
  proof (cases t)
    case (PQ_execute queue todo prog)
    show ?thesis
    proof (cases todo)
      case Nil
      with Some PQ_execute a show ?thesis by (simp add: execute_settles_def)
    next
      case (Cons operation rest)
      have "sound_task (PQ_execute queue (operation # rest) prog)"
        using a Some PQ_execute Cons sound_tasksD [of "tasks s" p t] by (simp add: sound_def)
      from sound_attempt [OF this, of net] show ?thesis
        using a Some PQ_execute Cons
        by (cases rest)
          (simp_all add: execute_settles_def continue_pass_def sound_def sound_tasks_upd)
    qed
  qed (use a Some in \<open>simp_all add: execute_settles_def\<close>)
qed

lemma sound_start: "sound_task (case queue of [] \<Rightarrow> PQ_setItem queue progress0
                       | _ # _ \<Rightarrow> PQ_execute queue queue progress0)"
proof (cases queue)
  case Nil
  then show ?thesis by (simp add: pass_outcome_def)
next
  case (Cons x xs)
  have "x # xs = [] @ x # xs \<and> progress0 = processOps undefined 0 [] progress0" by simp
  then show ?thesis unfolding Cons list.case sound_task.simps by blast
qed

lemma sound_storage_settles: "sound s \<Longrightarrow> sound (storage_settles p ok s)"
proof (cases "tasks s p")
  case None
  assume "sound s"
  with None show ?thesis by (simp add: storage_settles_def)
next
  case (Some t)
  assume a: "sound s"
  show ?thesis
  proof (cases t)
    case PQ_getQueue
    show ?thesis
      using Some PQ_getQueue a sound_start [of "fst (getQueue ok s)"]
      by (cases "fst (getQueue ok s)")
        (simp_all add: storage_settles_def split_def Let_def continue_pass_def sound_def
          sound_tasks_upd)
  next
    case (PQ_execute queue todo prog)
    with Some a show ?thesis by (simp add: storage_settles_def)
  next
    case (PQ_setItem queue prog)
    with Some a show ?thesis by (simp add: storage_settles_def Let_def sound_def sound_tasks_del)
  next
    case (ENQ_getQueue operation)
    with Some a show ?thesis
      by (simp add: storage_settles_def Let_def split_def sound_def sound_tasks_upd)
  next
    case (ENQ_setItem operation queue)
    have d: "sound (s\<lparr>tasks := (tasks s)(p := None), storage := st, console := c\<rparr>)" for st c
      using a by (simp add: sound_def sound_tasks_del)
    show ?thesis
      using Some ENQ_setItem a sound_processQueue_call [OF d]
      by (simp add: storage_settles_def Let_def sound_def sound_tasks_del)
  next
    case CLR_removeItem
    with Some a show ?thesis by (simp add: storage_settles_def Let_def sound_def sound_tasks_del)
  qed
qed

lemma sound_step: "sound s \<Longrightarrow> sound (step e s)"
proof (cases e)
  case Call_processQueue
  assume "sound s" with Call_processQueue show ?thesis by (simp add: sound_processQueue_call)
next
  case (Call_enqueue ty pl now rnd now')
  assume "sound s" with Call_enqueue show ?thesis
    by (simp add: sound_def enqueue_call_def Let_def sound_tasks_upd)
next
  case Call_clearQueue
  assume "sound s" with Call_clearQueue show ?thesis
    by (simp add: sound_def clearQueue_call_def Let_def sound_tasks_upd)
next
  case (Call_onNetworkChange c)
  assume "sound s" with Call_onNetworkChange show ?thesis by (simp add: sound_def onNetworkChange_def)
next
  case (Call_unsubscribe c)
  assume "sound s" with Call_unsubscribe show ?thesis by (simp add: sound_def unsubscribe_def)
next
  case (NetInfo_event c)
  assume "sound s" with NetInfo_event show ?thesis by (simp add: sound_netinfo_listener)
next
  case (Storage_settles p ok)
  assume "sound s" with Storage_settles show ?thesis by (simp add: sound_storage_settles)
next
  case (Execute_settles p net)
  assume "sound s" with Execute_settles show ?thesis by (simp add: sound_execute_settles)
qed

lemma reachable_sound: "reachable s \<Longrightarrow> sound s"
  by (induction rule: reachable.induct) (simp_all add: sound_init sound_step)

subsection \<open>Awaited calls in closed form\<close>

lemma run_append: "run (es @ fs) s = run fs (run es s)"
  by (induction es arbitrary: s) simp_all

lemma run_executes:
  "tasks s p = Some (PQ_execute queue todo prog) \<Longrightarrow> todo \<noteq> [] \<Longrightarrow>
   run (map (\<lambda>k. Execute_settles p (net k)) [i..<i + length todo]) s =
     s\<lparr>tasks := (tasks s)(p \<mapsto> PQ_setItem queue (processOps net i todo prog)),
       storageCalls := storageCalls s @ [SetItem (remaining (processOps net i todo prog))],
       console := console s @ processLog net i todo\<rparr>"
proof (induction todo arbitrary: s i prog)
  case Nil
  then show ?case by simp
next
  case (Cons operation rest)
  have u: "[i..<i + length (operation # rest)] = i # [Suc i..<Suc i + length rest]"
    by (subst upt_conv_Cons) simp_all
  show ?case
  proof (cases rest)
    case Nil
    then show ?thesis
      using Cons.prems
      by (intro state.equality) (simp_all add: execute_settles_def continue_pass_def fun_eq_iff)
  next
    case (Cons x xs)
    define s1 where "s1 = execute_settles p (net i) s"
    have s1: "s1 = s\<lparr>tasks := (tasks s)(p \<mapsto> PQ_execute queue rest (attempt operation (net i) prog)),
                      console := console s @ attempt_log operation (net i)\<rparr>"
      using Cons.prems Cons
      by (intro state.equality)
        (simp_all add: s1_def execute_settles_def continue_pass_def fun_eq_iff)
    have t: "tasks s1 p = Some (PQ_execute queue rest (attempt operation (net i) prog))"
      by (simp add: s1)
    have ne: "rest \<noteq> []" using Cons by simp
    show ?thesis
      unfolding u
      using Cons.IH [OF t ne, of "Suc i"]
      by (simp add: s1_def [symmetric]) (intro state.equality, simp_all add: s1 fun_eq_iff)
  qed
qed

lemma enqueue_call_new:
  "enqueue_call ty pl now rnd now' s =
     s\<lparr>promises := Suc (promises s),
       tasks := (tasks s)(promises s \<mapsto> ENQ_getQueue (new_operation ty pl now rnd now')),
       storageCalls := storageCalls s @ [GetItem]\<rparr>"
  by (simp add: enqueue_call_def Let_def)

lemma new_operation_fields [simp]:
  "op_type (new_operation ty pl now rnd now') = ty"
  "payload (new_operation ty pl now rnd now') = pl"
  "retries (new_operation ty pl now rnd now') = 0"
  "timestamp (new_operation ty pl now rnd now') = now'"
  "op_id (new_operation ty pl now rnd now') = decimal now @ ''_'' @ rnd"
  by (simp_all add: new_operation_def)

lemma getQueue_fst: "fst (getQueue rd s) = (if rd then stored s else [])"
  by (simp add: getQueue_def stored_def)

lemma run_executes_none:
  "tasks s p = None \<Longrightarrow> run (map (\<lambda>k. Execute_settles p (net k)) ks) s = s"
  by (induction ks) (simp_all add: execute_settles_def)

lemma processQueue_guarded:
  assumes "syncInProgress s \<or> \<not> isOnline s" "tasks s (promises s) = None"
  shows "processQueue rd net wr s =
           s\<lparr>promises := Suc (promises s),
             settled := (settled s)(promises s \<mapsto> Inr (Tally 0 0))\<rparr>"
proof -
  define s1 where "s1 = s\<lparr>promises := Suc (promises s),
             settled := (settled s)(promises s \<mapsto> Inr (Tally 0 0))\<rparr>"
  have c: "processQueue_call s = s1"
    using assms(1) by (auto simp add: processQueue_call_def Let_def s1_def)
  have t: "tasks s1 (promises s) = None" using assms(2) by (simp add: s1_def)
  have st: "storage_settles (promises s) ok s1 = s1" for ok
    using t by (simp add: storage_settles_def)
  show ?thesis
    unfolding s1_def [symmetric]
    by (simp add: processQueue_def Let_def c st run_append run_executes_none [OF t])
qed

lemma processQueue_idle:
  assumes "isOnline s" "\<not> syncInProgress s"
  shows "processQueue rd net wr s =
     (let p = promises s;
          queue = (if rd then stored s else []);
          R = pass_outcome net queue
      in s\<lparr>promises := Suc p,
           tasks := (tasks s)(p := None),
           storage := (if wr then Some (remaining R) else storage s),
           settled := (settled s)(p \<mapsto>
             (if wr then Inr (Tally (success R) (failed R)) else Inl StorageError)),
           storageCalls := storageCalls s @ [GetItem, SetItem (remaining R)],
           console := console s @ (if rd then [] else [Error_reading_queue]) @
             processLog net 0 queue\<rparr>)"
proof -
  define p where "p = promises s"
  define queue where "queue = (if rd then stored s else [])"
  define s1 where "s1 = s\<lparr>promises := Suc p, syncInProgress := True,
     storageCalls := storageCalls s @ [GetItem],
     console := console s @ (if rd then [] else [Error_reading_queue])\<rparr>"
  define s2 where "s2 = storage_settles p rd (processQueue_call s)"
  have s2: "s2 = continue_pass p queue queue progress0 s1"
    using assms
    by (auto simp add: s2_def s1_def processQueue_call_def storage_settles_def Let_def p_def
        getQueue_def continue_pass_def queue_def stored_def
        split: list.splits option.splits intro!: state.equality)
  define s3 where "s3 = run (map (\<lambda>k. Execute_settles p (net k)) [0..<length queue]) s2"
  have s3: "s3 = s1\<lparr>tasks := (tasks s)(p \<mapsto> PQ_setItem queue (pass_outcome net queue)),
       storageCalls := storageCalls s1 @ [SetItem (remaining (pass_outcome net queue))],
       console := console s1 @ processLog net 0 queue\<rparr>"
  proof (cases queue)
    case Nil
    then show ?thesis
      by (intro state.equality)
        (simp_all add: s3_def s2 continue_pass_def pass_outcome_def s1_def)
  next
    case (Cons x xs)
    then have t: "tasks s2 p = Some (PQ_execute queue queue progress0)" and ne: "queue \<noteq> []"
      by (simp_all add: s2 continue_pass_def)
    show ?thesis
      using run_executes [OF t ne, of net 0] Cons
      by (intro state.equality)
        (simp_all add: s3_def pass_outcome_def s2 continue_pass_def s1_def)
  qed
  have "processQueue rd net wr s = storage_settles p wr s3"
    by (simp add: processQueue_def Let_def run_append s3_def s2_def p_def queue_def getQueue_fst)
  also have "\<dots> = s\<lparr>promises := Suc p,
           tasks := (tasks s)(p := None),
           storage := (if wr then Some (remaining (pass_outcome net queue)) else storage s),
           settled := (settled s)(p \<mapsto>
             (if wr then Inr (Tally (success (pass_outcome net queue)) (failed (pass_outcome net queue)))
              else Inl StorageError)),
           storageCalls := storageCalls s @ [GetItem, SetItem (remaining (pass_outcome net queue))],
           console := console s @ (if rd then [] else [Error_reading_queue]) @
             processLog net 0 queue\<rparr>"
    using assms
    by (intro state.equality) (simp_all add: s3 storage_settles_def Let_def s1_def)
  finally show ?thesis
    by (simp add: Let_def p_def queue_def)
qed

lemma processQueue_call_fields [simp]:
  "storage (processQueue_call s) = storage s"
  "console (processQueue_call s) = console s"
  "isOnline (processQueue_call s) = isOnline s"
  "listeners (processQueue_call s) = listeners s"
  "notified (processQueue_call s) = notified s"
  "promises (processQueue_call s) = Suc (promises s)"
  by (simp_all add: processQueue_call_def Let_def)

lemma enqueue_offline:
  "\<not> isOnline s \<Longrightarrow>
   enqueue ty pl now rnd now' rd True s =
     (let p = promises s;
          operation = new_operation ty pl now rnd now';
          queue = (if rd then stored s else []) @ [operation]
      in s\<lparr>promises := Suc p,
           tasks := (tasks s)(p := None),
           storage := Some queue,
           settled := (settled s)(p \<mapsto> Inr (OperationId (op_id operation))),
           storageCalls := storageCalls s @ [GetItem, SetItem queue],
           console := console s @ (if rd then [] else [Error_reading_queue]) @
             [Enqueued ty (op_id operation)]\<rparr>)"
  unfolding Let_def
  by (intro state.equality)
    (simp_all add: enqueue_def enqueue_call_new storage_settles_def Let_def getQueue_def
      stored_def split_def fun_eq_iff)

lemma enqueue_write_rejected:
  "enqueue ty pl now rnd now' rd False s =
     (let p = promises s;
          operation = new_operation ty pl now rnd now';
          queue = (if rd then stored s else []) @ [operation]
      in s\<lparr>promises := Suc p,
           tasks := (tasks s)(p := None),
           settled := (settled s)(p \<mapsto> Inl StorageError),
           storageCalls := storageCalls s @ [GetItem, SetItem queue],
           console := console s @ (if rd then [] else [Error_reading_queue])\<rparr>)"
  unfolding Let_def
  by (intro state.equality)
    (simp_all add: enqueue_def enqueue_call_new storage_settles_def Let_def getQueue_def
      stored_def split_def fun_eq_iff)

lemma enqueue_written:
  "settled (enqueue ty pl now rnd now' rd True s) (promises s) =
     Some (Inr (OperationId (op_id (new_operation ty pl now rnd now'))))"
  "storage (enqueue ty pl now rnd now' rd True s) =
     Some ((if rd then stored s else []) @ [new_operation ty pl now rnd now'])"
  by (simp_all add: enqueue_def enqueue_call_new storage_settles_def Let_def getQueue_def
      stored_def split_def)

subsection \<open>Only storage errors reject\<close>

lemma ose_processQueue_call: "only_storage_errors s \<Longrightarrow> only_storage_errors (processQueue_call s)"
  by (simp add: only_storage_errors_def processQueue_call_def Let_def)

lemma ose_netinfo_listener: "only_storage_errors s \<Longrightarrow> only_storage_errors (netinfo_listener c s)"
proof -
  assume a: "only_storage_errors s"
  have "only_storage_errors (s\<lparr>isOnline := b, notified := n\<rparr>)" for b n
    using a by (simp add: only_storage_errors_def)
  then show ?thesis
    by (simp add: netinfo_listener_def Let_def ose_processQueue_call)
qed

lemma ose_execute_settles: "only_storage_errors s \<Longrightarrow> only_storage_errors (execute_settles p net s)"
  by (simp add: only_storage_errors_def execute_settles_def continue_pass_def
      split: option.splits task.splits list.splits)

lemma ose_storage_settles: "only_storage_errors s \<Longrightarrow> only_storage_errors (storage_settles p ok s)"
proof (cases "tasks s p")
  case None
  assume "only_storage_errors s"
  with None show ?thesis by (simp add: storage_settles_def)
next
  case (Some t)
  assume a: "only_storage_errors s"
  show ?thesis
  proof (cases t)
    case (ENQ_setItem operation queue)
    have d: "only_storage_errors (s\<lparr>tasks := T, storage := st, console := c\<rparr>)" for T st c
      using a by (simp add: only_storage_errors_def)
    show ?thesis
      using Some ENQ_setItem a ose_processQueue_call [OF d]
      by (simp add: storage_settles_def Let_def only_storage_errors_def)
  qed (use a Some in \<open>simp_all add: storage_settles_def Let_def only_storage_errors_def
        split_def getQueue_def continue_pass_def split: list.splits\<close>)
qed

lemma ose_step: "only_storage_errors s \<Longrightarrow> only_storage_errors (step e s)"
proof (cases e)
  case (Call_enqueue ty pl now rnd now')
  assume "only_storage_errors s" with Call_enqueue show ?thesis
    by (simp add: only_storage_errors_def enqueue_call_def Let_def)
next
  case Call_clearQueue
  assume "only_storage_errors s" with Call_clearQueue show ?thesis
    by (simp add: only_storage_errors_def clearQueue_call_def Let_def)
next
  case (Call_onNetworkChange c)
  assume "only_storage_errors s" with Call_onNetworkChange show ?thesis
    by (simp add: only_storage_errors_def onNetworkChange_def)
next
  case (Call_unsubscribe c)
  assume "only_storage_errors s" with Call_unsubscribe show ?thesis
    by (simp add: only_storage_errors_def unsubscribe_def)
qed (simp_all add: ose_processQueue_call ose_netinfo_listener ose_storage_settles
      ose_execute_settles)

lemma reachable_ose: "reachable s \<Longrightarrow> only_storage_errors s"
  by (induction rule: reachable.induct)
    (simp_all add: ose_step, simp add: only_storage_errors_def init_def)

subsection \<open>A suspended pass keeps its snapshot\<close>

lemma keeps_processQueue_call: "keeps s p queue \<Longrightarrow> keeps (processQueue_call s) p queue"
  by (auto simp add: keeps_def processQueue_call_def Let_def)

lemma keeps_netinfo_listener: "keeps s p queue \<Longrightarrow> keeps (netinfo_listener c s) p queue"
proof -
  assume a: "keeps s p queue"
  have "keeps (s\<lparr>isOnline := b, notified := n\<rparr>) p queue" for b n
    using a by (simp add: keeps_def)
  then show ?thesis
    by (simp add: netinfo_listener_def Let_def keeps_processQueue_call)
qed

lemma keeps_execute_settles: "keeps s p queue \<Longrightarrow> keeps (execute_settles q net s) p queue"
  by (auto simp add: keeps_def execute_settles_def continue_pass_def
      split: option.splits task.splits list.splits)

lemma keeps_storage_settles: "keeps s p queue \<Longrightarrow> keeps (storage_settles q ok s) p queue"
proof (cases "tasks s q")
  case None
  assume "keeps s p queue"
  with None show ?thesis by (simp add: storage_settles_def)
next
  case (Some t)
  assume a: "keeps s p queue"
  show ?thesis
  proof (cases t)
    case (ENQ_setItem operation qu)
    have d: "keeps (s\<lparr>tasks := (tasks s)(q := None), storage := st, console := c\<rparr>) p queue" for st c
      using a by (auto simp add: keeps_def)
    have e: "keeps (s'\<lparr>settled := S\<rparr>) p queue = keeps s' p queue" for s' S
      by (simp add: keeps_def)
    show ?thesis
      using Some ENQ_setItem a keeps_processQueue_call [OF d] d
      by (simp add: storage_settles_def Let_def e) (auto simp add: keeps_def)
  next
    case PQ_getQueue
    with Some a show ?thesis
      by (auto simp add: storage_settles_def Let_def keeps_def split_def getQueue_def
          continue_pass_def split: list.splits)
  qed (use a Some in \<open>auto simp add: storage_settles_def Let_def keeps_def
        split_def getQueue_def\<close>)
qed

lemma keeps_step: "keeps s p queue \<Longrightarrow> keeps (step e s) p queue"
proof (cases e)
  case (Call_enqueue ty pl now rnd now')
  assume "keeps s p queue" with Call_enqueue show ?thesis
    by (auto simp add: keeps_def enqueue_call_def Let_def)
next
  case Call_clearQueue
  assume "keeps s p queue" with Call_clearQueue show ?thesis
    by (auto simp add: keeps_def clearQueue_call_def Let_def)
next
  case (Call_onNetworkChange c)
  assume "keeps s p queue" with Call_onNetworkChange show ?thesis
    by (simp add: keeps_def onNetworkChange_def)
next
  case (Call_unsubscribe c)
  assume "keeps s p queue" with Call_unsubscribe show ?thesis
    by (simp add: keeps_def unsubscribe_def)
qed (simp_all add: keeps_processQueue_call keeps_netinfo_listener keeps_storage_settles
      keeps_execute_settles)

lemma keeps_run: "keeps s p queue \<Longrightarrow> keeps (run es s) p queue"
  by (induction es arbitrary: s) (simp_all add: keeps_step)

lemma keeps_after_read:
  assumes "inv s" "tasks s p = Some PQ_getQueue"
  shows "keeps (storage_settles p True s) p (stored s)"
proof -
  have "p < promises s" using assms by (auto simp add: inv_def exclusive_def)
  then show ?thesis
    using assms(2)
    by (auto simp add: keeps_def storage_settles_def getQueue_def continue_pass_def stored_def
        split: list.splits option.splits)
qed

subsection \<open>A pass around one operation\<close>

lemma pass_outcome_split:
  "pass_outcome net (xs @ operation # ys) =
     processOps net (Suc (length xs)) ys
       (attempt operation (net (length xs)) (pass_outcome net xs))"
  by (simp add: pass_outcome_def processOps_append)

lemma pass_outcome_failure:
  assumes "executeOperation operation (net (length xs)) = Inl e"
  shows "remaining (pass_outcome net (xs @ operation # ys)) =
           remaining (pass_outcome net xs) @
           (if retries operation + 1 < 3 then [operation\<lparr>retries := retries operation + 1\<rparr>] else []) @
           remaining (processOps net (Suc (length xs)) ys progress0)"
    and "success (pass_outcome net (xs @ operation # ys)) =
           success (pass_outcome net xs) + success (processOps net (Suc (length xs)) ys progress0)"
    and "failed (pass_outcome net (xs @ operation # ys)) =
           failed (pass_outcome net xs) + (if retries operation + 1 < 3 then 0 else 1) +
           failed (processOps net (Suc (length xs)) ys progress0)"
  unfolding pass_outcome_split
  by (subst processOps_remaining processOps_success processOps_failed,
      simp add: attempt_failure [OF assms])+

lemma pass_outcome_success:
  assumes "executeOperation operation (net (length xs)) = Inr u"
  shows "remaining (pass_outcome net (xs @ operation # ys)) =
           remaining (pass_outcome net xs) @
           remaining (processOps net (Suc (length xs)) ys progress0)"
    and "success (pass_outcome net (xs @ operation # ys)) =
           success (pass_outcome net xs) + 1 +
           success (processOps net (Suc (length xs)) ys progress0)"
    and "failed (pass_outcome net (xs @ operation # ys)) =
           failed (pass_outcome net xs) + failed (processOps net (Suc (length xs)) ys progress0)"
  unfolding pass_outcome_split
  by (subst processOps_remaining processOps_success processOps_failed,
      simp add: attempt_success [OF assms])+




subsection \<open>Sequences of enqueue calls\<close>

lemma enqueue_offline_fields:
  assumes "\<not> isOnline s"
  shows "\<not> isOnline (enqueue ty pl now rnd now' rd wr s)"
    and "syncInProgress (enqueue ty pl now rnd now' rd wr s) = syncInProgress s"
    and "stored (enqueue ty pl now rnd now' rd wr s) =
          (if wr then (if rd then stored s else []) @ [new_operation ty pl now rnd now']
           else stored s)"
  using assms
  by (cases wr; simp add: enqueue_offline enqueue_write_rejected Let_def stored_def)+

lemma enqueue_seq_offline:
  "\<not> isOnline s \<Longrightarrow>
   subseq (stored (enqueue_seq calls s)) (stored s @ map operation_of calls) \<and>
   ((\<forall>c \<in> set calls. storage_worked c) \<longrightarrow>
      stored (enqueue_seq calls s) = stored s @ map operation_of calls) \<and>
   syncInProgress (enqueue_seq calls s) = syncInProgress s"
proof (induction calls arbitrary: s)
  case Nil
  then show ?case by simp
next
  case (Cons call calls)
  obtain ty pl now rnd now' rd wr where c: "call = (ty, pl, now, rnd, now', rd, wr)"
    by (cases call) auto
  define s1 where "s1 = enqueue ty pl now rnd now' rd wr s"
  define x where "x = new_operation ty pl now rnd now'"
  note f = enqueue_offline_fields [OF Cons.prems, of ty pl now rnd now' rd wr,
      folded s1_def x_def]
  note ih = Cons.IH [OF f(1)]
  have x: "operation_of call = x" by (simp add: operation_of_def c x_def)
  have sub: "subseq (stored s1 @ map operation_of calls) (stored s @ x # map operation_of calls)"
  proof (cases wr)
    case True
    show ?thesis
    proof (cases rd)
      case True
      with \<open>wr\<close> show ?thesis by (simp add: f(3))
    next
      case False
      have "subseq (x # map operation_of calls) (stored s @ x # map operation_of calls)"
        by (rule subseq_drop_many) simp
      with \<open>wr\<close> False show ?thesis by (simp add: f(3))
    qed
  next
    case False
    have "subseq (map operation_of calls) ([x] @ map operation_of calls)"
      by (rule subseq_drop_many) simp
    then have "subseq (map operation_of calls) (x # map operation_of calls)" by simp
    then have "subseq (stored s @ map operation_of calls) (stored s @ x # map operation_of calls)"
      by (simp only: subseq_append')
    with False show ?thesis by (simp add: f(3))
  qed
  have 1: "subseq (stored (enqueue_seq (call # calls) s)) (stored s @ map operation_of (call # calls))"
    using ih sub by (simp add: c s1_def [symmetric] x [unfolded c]) (metis subseq_order.order_trans)
  have 2: "stored (enqueue_seq (call # calls) s) = stored s @ map operation_of (call # calls)"
    if w: "\<forall>c \<in> set (call # calls). storage_worked c"
  proof -
    from w have "rd" "wr" "\<forall>c \<in> set calls. storage_worked c"
      by (simp_all add: c storage_worked_def)
    with ih f(3) have "stored (enqueue_seq calls s1) = stored s @ x # map operation_of calls"
      by simp
    then show ?thesis by (simp add: c s1_def x_def operation_of_def)
  qed
  have 3: "syncInProgress (enqueue_seq (call # calls) s) = syncInProgress s"
    using ih f(2) by (simp add: c s1_def [symmetric])
  show ?case using 1 2 3 by blast
qed

subsection \<open>What the machine does in an awaited pass\<close>

lemma run_executes_prefix:
  "tasks s p = Some (PQ_execute queue todo prog) \<Longrightarrow> k < length todo \<Longrightarrow>
   tasks (run (map (\<lambda>j. Execute_settles p (net j)) [i..<i + k]) s) p =
     Some (PQ_execute queue (drop k todo) (processOps net i (take k todo) prog))"
proof (induction k arbitrary: s i todo prog)
  case 0
  then show ?case by simp
next
  case (Suc k)
  from Suc.prems(2) obtain operation rest where t: "todo = operation # rest" and r: "k < length rest"
    by (cases todo) auto
  from r obtain x xs where rest: "rest = x # xs" by (cases rest) auto
  have u: "[i..<i + Suc k] = i # [Suc i..<Suc i + k]"
    by (subst upt_conv_Cons) simp_all
  define s1 where "s1 = execute_settles p (net i) s"
  have t1: "tasks s1 p = Some (PQ_execute queue rest (attempt operation (net i) prog))"
    using Suc.prems(1) t rest by (simp add: s1_def execute_settles_def continue_pass_def)
  show ?case
    unfolding u using Suc.IH [OF t1 r, of "Suc i"]
    by (simp add: s1_def [symmetric] t)
qed

lemma pass_from_read:
  assumes "tasks s p = Some PQ_getQueue"
  shows "k < length (stored s) \<Longrightarrow>
         tasks (run (Storage_settles p True # map (\<lambda>j. Execute_settles p (net j)) [0..<k]) s) p =
           Some (PQ_execute (stored s) (drop k (stored s))
                   (processOps net 0 (take k (stored s)) progress0))"
    and "tasks (run (Storage_settles p True #
                 map (\<lambda>j. Execute_settles p (net j)) [0..<length (stored s)]) s) p =
           Some (PQ_setItem (stored s) (pass_outcome net (stored s)))"
proof -
  define s1 where "s1 = storage_settles p True s"
  have c: "s1 = continue_pass p (stored s) (stored s) progress0 s"
    using assms by (simp add: s1_def storage_settles_def getQueue_def stored_def)
  show "tasks (run (Storage_settles p True # map (\<lambda>j. Execute_settles p (net j)) [0..<k]) s) p =
           Some (PQ_execute (stored s) (drop k (stored s))
                   (processOps net 0 (take k (stored s)) progress0))"
    if k: "k < length (stored s)"
  proof -
    from k obtain x xs where q: "stored s = x # xs" by (cases "stored s") auto
    have t: "tasks s1 p = Some (PQ_execute (stored s) (stored s) progress0)"
      by (simp add: c continue_pass_def q)
    from run_executes_prefix [OF t k, of net 0] show ?thesis
      by (simp add: s1_def)
  qed
  show "tasks (run (Storage_settles p True #
                 map (\<lambda>j. Execute_settles p (net j)) [0..<length (stored s)]) s) p =
           Some (PQ_setItem (stored s) (pass_outcome net (stored s)))"
  proof (cases "stored s")
    case Nil
    then show ?thesis
      by (simp add: s1_def [symmetric]) (simp add: c continue_pass_def pass_outcome_def Nil)
  next
    case (Cons x xs)
    have t: "tasks s1 p = Some (PQ_execute (stored s) (stored s) progress0)"
      by (simp add: c continue_pass_def Cons)
    have ne: "stored s \<noteq> []" using Cons by simp
    from run_executes [OF t ne, of net 0] show ?thesis
      by (simp add: s1_def pass_outcome_def)
  qed
qed



lemma reconnect_started:
  "\<not> isOnline s \<Longrightarrow> \<not> syncInProgress s \<Longrightarrow>
   tasks (netinfo_listener (Some True) s) (promises s) = Some PQ_getQueue \<and>
   stored (netinfo_listener (Some True) s) = stored s"
  by (simp add: netinfo_listener_def processQueue_call_def Let_def stored_def)

lemma attempts_reconnect:
  assumes "\<not> isOnline s" "\<not> syncInProgress s"
  shows "attempts (NetInfo_event (Some True)) net s = stored s"
proof -
  note st = reconnect_started [OF assms]
  from pass_from_read(2) [of "netinfo_listener (Some True) s" "promises s" net] st
  show ?thesis
    by (simp add: attempts_def pass_to_write_def Let_def pass_outcome_def processOps_attempted
        progress0_def)
qed







lemma enqueue_seq_stays_offline:
  "\<not> isOnline s \<Longrightarrow> \<not> isOnline (enqueue_seq calls s)"
proof (induction calls arbitrary: s)
  case Nil
  then show ?case by simp
next
  case (Cons call calls)
  obtain ty pl now rnd now' rd wr where c: "call = (ty, pl, now, rnd, now', rd, wr)"
    by (cases call) auto
  from Cons.IH [OF enqueue_offline_fields(1) [OF Cons.prems, of ty pl now rnd now' rd wr]]
  show ?case by (simp add: c)
qed

section \<open>Properties\<close>

subsection \<open>Mutual exclusion of replay passes\<close>

text \<open>
  C1. In every state the queue can reach, at most one replay pass is running; and when
  \<open>processQueue\<close> is called while a pass is running (an earlier call has not settled) or
  while the queue is offline, the call settles its promise with \<open>{success: 0, failed: 0}\<close>
  in the same step and changes nothing else: no AsyncStorage call is issued, the stored
  queue, the flag and the suspended calls are as before.
\<close>

theorem processQueue_mutual_exclusion:
  assumes "reachable s"
  shows "(\<forall>p q. running_pass s p \<longrightarrow> running_pass s q \<longrightarrow> p = q) \<and>
         ((\<exists>p. running_pass s p) \<or> \<not> isOnline s \<longrightarrow>
            step Call_processQueue s =
              s\<lparr>promises := Suc (promises s),
                settled := (settled s)(promises s \<mapsto> Inr (Tally 0 0))\<rparr>)"
proof -
  from assms have i: "exclusive (tasks s) (promises s) (syncInProgress s)"
    using reachable_inv by (simp add: inv_def)
  then have one: "running_pass s p \<Longrightarrow> running_pass s q \<Longrightarrow> p = q" for p q
    by (simp add: exclusive_def running_pass_def)
  from i have flag: "syncInProgress s \<longleftrightarrow> (\<exists>p. running_pass s p)"
    by (simp add: exclusive_def running_pass_def)
  have "step Call_processQueue s =
          s\<lparr>promises := Suc (promises s),
            settled := (settled s)(promises s \<mapsto> Inr (Tally 0 0))\<rparr>"
    if "(\<exists>p. running_pass s p) \<or> \<not> isOnline s"
    using that flag by (auto simp add: processQueue_call_def Let_def)
  with one show ?thesis by blast
qed

theorem processQueue_mutual_exclusion_witness:
  "running_pass (run [Call_processQueue] (init None)) 0 \<and>
   settled (run [Call_processQueue, Call_processQueue] (init None)) 1 = Some (Inr (Tally 0 0)) \<and>
   storageCalls (run [Call_processQueue, Call_processQueue] (init None)) = [GetItem] \<and>
   storage (run [Call_processQueue, Call_processQueue] (init None)) = None"
proof -
  define s where "s = run [Call_processQueue] (init None)"
  have r: "reachable s" unfolding s_def by (rule reachable_run) (rule reachable.start)
  have rp: "running_pass s 0"
    by (simp add: s_def running_pass_def running_def processQueue_call_def init_def Let_def)
  then have h: "(\<exists>p. running_pass s p) \<or> \<not> isOnline s" by blast
  have v: "promises s = 1" "storageCalls s = [GetItem]" "storage s = None"
    by (simp_all add: s_def processQueue_call_def init_def Let_def)
  from processQueue_mutual_exclusion [OF r] h
  have "step Call_processQueue s =
          s\<lparr>promises := Suc (promises s),
            settled := (settled s)(promises s \<mapsto> Inr (Tally 0 0))\<rparr>" by blast
  then have "settled (step Call_processQueue s) 1 = Some (Inr (Tally 0 0)) \<and>
    storageCalls (step Call_processQueue s) = [GetItem] \<and> storage (step Call_processQueue s) = None"
    using v by simp
  with rp show ?thesis by (simp add: s_def)
qed

subsection \<open>What counts as a successful execution\<close>

text \<open>
  C2. The spec counts an execution as successful only on a 2xx status. The code does not
  look at the response: a \<open>log_expense\<close> answered with HTTP 500 is executed without
  error, printed as synced, counted in \<open>success\<close> and removed from the stored queue.
\<close>

theorem server_error_counts_as_synced:
  "executeOperation expense (Resolved 500) = Inr () \<and>
   storage (processQueue True (\<lambda>k. Resolved 500) True (init (Some [expense]))) = Some [] \<and>
   settled (processQueue True (\<lambda>k. Resolved 500) True (init (Some [expense]))) 0 =
     Some (Inr (Tally 1 0)) \<and>
   console (processQueue True (\<lambda>k. Resolved 500) True (init (Some [expense]))) =
     [Synced log_expense ''1_a'']"
proof -
  have e: "executeOperation expense (Resolved 500) = Inr ()"
    by (simp add: executeOperation_def request_of_def expense_def)
  have i: "isOnline (init (Some [expense]))" "\<not> syncInProgress (init (Some [expense]))"
    by (simp_all add: init_def)
  have o: "pass_outcome (\<lambda>k. Resolved 500) [expense] =
     \<lparr>remaining = [], success = 1, failed = 0, attempted = [expense]\<rparr>"
    by (simp add: pass_outcome_def attempt_def e progress0_def)
  have l: "processLog (\<lambda>k. Resolved 500) 0 [expense] = [Synced log_expense ''1_a'']"
    by (simp add: attempt_log_def e) (simp add: expense_def)
  show ?thesis
    using e o l by (simp add: processQueue_idle [OF i] Let_def) (simp add: init_def stored_def o l)
qed

subsection \<open>Bounded retry\<close>




subsection \<open>Failures of enqueue\<close>

text \<open>
  C4, as the spec states it, fails: when the write of storage rejects, \<open>enqueue\<close>
  rejects with the storage error and prints nothing.
\<close>

theorem enqueue_rejects_when_write_fails:
  "settled (enqueue log_expense (Obj [(''amount'', Num 5000)]) 1 ''a'' 1 True False (init None)) 0 =
     Some (Inl StorageError) \<and>
   console (enqueue log_expense (Obj [(''amount'', Num 5000)]) 1 ''a'' 1 True False (init None)) = []"
  by (simp add: enqueue_write_rejected Let_def) (simp add: init_def)

text \<open>
  C4, amended. \<open>enqueue\<close> returns the new operation's id exactly when its write of
  storage resolves, also when its read failed (that failure is printed and the queue is
  taken to be empty); when the write rejects, \<open>enqueue\<close> rejects with the storage error
  and that failure is not printed.
\<close>

theorem enqueue_returns_id_when_written:
  "settled (enqueue ty pl now rnd now' rd wr s) (promises s) =
     Some (if wr then Inr (OperationId (decimal now @ ''_'' @ rnd)) else Inl StorageError) \<and>
   console (enqueue ty pl now rnd now' False wr s) =
     console s @ [Error_reading_queue] @ (if wr then [Enqueued ty (decimal now @ ''_'' @ rnd)] else []) \<and>
   console (enqueue ty pl now rnd now' True False s) = console s \<and>
   promises (enqueue ty pl now rnd now' rd False s) = Suc (promises s) \<and>
   storage (enqueue ty pl now rnd now' rd True s) =
     Some ((if rd then stored s else []) @ [new_operation ty pl now rnd now'])"
proof (cases wr)
  case True
  have c: "console (enqueue ty pl now rnd now' False True s) =
     console s @ [Error_reading_queue, Enqueued ty (decimal now @ ''_'' @ rnd)]"
    by (simp add: enqueue_def enqueue_call_new storage_settles_def Let_def getQueue_def
        split_def)
  show ?thesis
    using True c by (simp add: enqueue_written) (simp add: enqueue_write_rejected Let_def)
next
  case False
  then show ?thesis by (simp add: enqueue_write_rejected Let_def enqueue_written)
qed

theorem enqueue_returns_id_when_written_witness:
  "settled (enqueue restock Null 12 ''xyz'' 12 True True (init None)) 0 =
     Some (Inr (OperationId ''12_xyz'')) \<and>
   settled (enqueue restock Null 12 ''xyz'' 12 False False (init None)) 0 =
     Some (Inl StorageError) \<and>
   console (enqueue restock Null 12 ''xyz'' 12 False False (init None)) = [Error_reading_queue]"
proof -
  have d: "decimal 12 = ''12''" by code_simp
  have p: "promises (init None) = 0" "console (init None) = []" by (simp_all add: init_def)
  show ?thesis
    using enqueue_returns_id_when_written [of restock Null 12 "''xyz''" 12 True True "init None"]
      enqueue_returns_id_when_written [of restock Null 12 "''xyz''" 12 False False "init None"]
    by (simp add: d p)
qed

subsection \<open>Order preservation\<close>

text \<open>
  C5, as the spec states it, fails. Offline, so that no replay pass runs, two
  \<open>enqueue\<close> calls are made before either has read the queue: both read the empty
  queue, both return an id, and the second write replaces the first, so \<open>getQueue\<close>
  returns the second operation alone.
\<close>

theorem overlapping_enqueues_lose_the_first:
  "storage (run overlapping_enqueues (init None)) =
     Some [new_operation log_expense Null 13 ''b'' 13] \<and>
   settled (run overlapping_enqueues (init None)) 0 = Some (Inr (OperationId ''12_a'')) \<and>
   settled (run overlapping_enqueues (init None)) 1 = Some (Inr (OperationId ''13_b'')) \<and>
   fst (getQueue True (run overlapping_enqueues (init None))) =
     [new_operation log_expense Null 13 ''b'' 13]"
  by (intro conjI; code_simp)

text \<open>
  C5, amended. Offline and with no pass running, after any sequence of \<open>enqueue\<close> calls
  each awaited before the next: \<open>getQueue\<close> returns what is stored, which is in call
  order with operations missing at most, and exactly what was stored before followed by
  the new operations in call order when storage worked for every call. No pass was
  started. In the pass the next reconnect starts, the operation whose
  \<open>executeOperation\<close> is awaited after \<open>k\<close> settlements is the one at index \<open>k\<close> of
  that list, and at its write the pass has executed the whole list in that order.
\<close>

theorem awaited_enqueue_order:
  assumes "\<not> isOnline s" and "\<not> syncInProgress s"
  shows "(let s' = enqueue_seq calls s; queue = stored s'; p = promises s' in
          fst (getQueue True s') = queue \<and>
          subseq queue (stored s @ map operation_of calls) \<and>
          ((\<forall>c \<in> set calls. storage_worked c) \<longrightarrow> queue = stored s @ map operation_of calls) \<and>
          \<not> isOnline s' \<and> \<not> syncInProgress s' \<and>
          (\<forall>k < length queue.
             tasks (run (NetInfo_event (Some True) # Storage_settles p True #
                         map (\<lambda>j. Execute_settles p (net j)) [0..<k]) s') p =
               Some (PQ_execute queue (drop k queue) (processOps net 0 (take k queue) progress0))) \<and>
          attempts (NetInfo_event (Some True)) net s' = queue)"
proof -
  define s' where "s' = enqueue_seq calls s"
  note e = enqueue_seq_offline [OF assms(1), of calls, folded s'_def]
  have off: "\<not> isOnline s'" unfolding s'_def using assms(1) by (rule enqueue_seq_stays_offline)
  have idle: "\<not> syncInProgress s'" using e assms(2) by simp
  note st = reconnect_started [OF off idle]
  have steps: "tasks (run (NetInfo_event (Some True) # Storage_settles (promises s') True #
                         map (\<lambda>j. Execute_settles (promises s') (net j)) [0..<k]) s') (promises s') =
               Some (PQ_execute (stored s') (drop k (stored s'))
                       (processOps net 0 (take k (stored s')) progress0))"
    if "k < length (stored s')" for k
    using pass_from_read(1) [of "netinfo_listener (Some True) s'" "promises s'" k net] st that
    by simp
  show ?thesis
    unfolding Let_def s'_def [symmetric]
    using e off idle steps attempts_reconnect [OF off idle, of net]
    by (simp add: getQueue_fst)
qed

theorem awaited_enqueue_order_witness:
  "fst (getQueue True (enqueue_seq
      [(restock, Null, 12, ''x'', 12, True, True), (log_expense, Null, 12, ''y'', 13, True, True),
       (create_order, Null, 14, ''z'', 14, True, True)]
      ((init None)\<lparr>isOnline := False\<rparr>))) =
     [new_operation restock Null 12 ''x'' 12, new_operation log_expense Null 12 ''y'' 13,
      new_operation create_order Null 14 ''z'' 14] \<and>
   attempts (NetInfo_event (Some True)) (\<lambda>k. Rejected) (enqueue_seq
      [(restock, Null, 12, ''x'', 12, True, True), (log_expense, Null, 12, ''y'', 13, True, True),
       (create_order, Null, 14, ''z'', 14, True, True)]
      ((init None)\<lparr>isOnline := False\<rparr>)) =
     [new_operation restock Null 12 ''x'' 12, new_operation log_expense Null 12 ''y'' 13,
      new_operation create_order Null 14 ''z'' 14]"
proof -
  define calls where "calls =
    [(restock, Null, 12::nat, ''x'', 12::nat, True, True), (log_expense, Null, 12, ''y'', 13, True, True),
     (create_order, Null, 14, ''z'', 14, True, True)]"
  define s where "s = (init None)\<lparr>isOnline := False\<rparr>"
  have h: "\<not> isOnline s" "\<not> syncInProgress s" by (simp_all add: s_def init_def)
  have w: "\<forall>c \<in> set calls. storage_worked c"
    by (simp add: storage_worked_def calls_def)
  have q: "stored s @ map operation_of calls =
     [new_operation restock Null 12 ''x'' 12, new_operation log_expense Null 12 ''y'' 13,
      new_operation create_order Null 14 ''z'' 14]"
    by (simp add: s_def stored_def init_def operation_of_def calls_def)
  from awaited_enqueue_order [OF h, of calls "\<lambda>k. Rejected"] w
  have "fst (getQueue True (enqueue_seq calls s)) = stored s @ map operation_of calls \<and>
        attempts (NetInfo_event (Some True)) (\<lambda>k. Rejected) (enqueue_seq calls s) =
          stored s @ map operation_of calls"
    unfolding Let_def by auto
  then show ?thesis
    unfolding q by (simp add: calls_def s_def)
qed

subsection \<open>Success removes\<close>

text \<open>
  C6. In an awaited pass, an operation whose execution succeeds adds nothing to the queue
  the pass writes back (the argument of its \<open>setItem\<close>, whether or not that write
  resolves) and exactly one to \<open>success\<close>, whatever its \<open>retries\<close>; if no other stored
  operation has its id, no operation written back has it.
\<close>

theorem success_removes:
  assumes "ready s" "stored s = xs @ operation # ys"
    and "executeOperation operation (net (length xs)) = Inr ()"
  shows "storageCalls (processQueue True net wr s) =
           storageCalls s @
             [GetItem, SetItem (remaining (pass_outcome net xs) @ remaining (pass_after net xs ys))] \<and>
         storage (processQueue True net True s) =
           Some (remaining (pass_outcome net xs) @ remaining (pass_after net xs ys)) \<and>
         settled (processQueue True net True s) (promises s) =
           Some (Inr (Tally
             (success (pass_outcome net xs) + 1 + success (pass_after net xs ys))
             (failed (pass_outcome net xs) + failed (pass_after net xs ys)))) \<and>
         (op_id operation \<notin> op_id ` (set xs \<union> set ys) \<longrightarrow>
            op_id operation \<notin>
              op_id ` set (remaining (pass_outcome net xs) @ remaining (pass_after net xs ys)))"
proof -
  note f = pass_outcome_success [where net = net and xs = xs and ys = ys, OF assms(3)]
  have a: "op_id ` set (remaining (pass_outcome net xs)) \<subseteq> op_id ` set xs"
    using processOps_ids [of net 0 xs progress0] by (simp add: pass_outcome_def progress0_def)
  have b: "op_id ` set (remaining (pass_after net xs ys)) \<subseteq> op_id ` set ys"
    using processOps_ids [of net "Suc (length xs)" ys progress0]
    by (simp add: pass_after_def progress0_def)
  have "op_id operation \<notin> op_id ` set (remaining (pass_outcome net xs) @ remaining (pass_after net xs ys))"
    if "op_id operation \<notin> op_id ` (set xs \<union> set ys)"
    using that a b by auto
  then show ?thesis
    using assms(1,2) f by (simp add: ready_def processQueue_idle Let_def pass_after_def)
qed

theorem success_removes_witness:
  "storage (processQueue True (\<lambda>k. Resolved 201) True (init (Some [expense\<lparr>retries := 2\<rparr>]))) =
     Some [] \<and>
   settled (processQueue True (\<lambda>k. Resolved 201) True (init (Some [expense\<lparr>retries := 2\<rparr>]))) 0 =
     Some (Inr (Tally 1 0))"
proof -
  define s where "s = init (Some [expense\<lparr>retries := 2\<rparr>])"
  have r: "ready s" and q: "stored s = [] @ expense\<lparr>retries := 2\<rparr> # []" and p: "promises s = 0"
    by (simp_all add: s_def ready_def init_def stored_def)
  have e: "executeOperation (expense\<lparr>retries := 2\<rparr>)
      ((\<lambda>k. Resolved 201) (length ([]::QueuedOperation list))) = Inr ()"
    by (simp add: executeOperation_def request_of_def expense_def)
  have z: "pass_outcome net [] = progress0" "pass_after net [] [] = progress0" for net
    by (simp_all add: pass_outcome_def pass_after_def)
  from success_removes [where net = "\<lambda>k. Resolved 201" and xs = "[]" and ys = "[]", OF r q e]
  show ?thesis
    unfolding s_def [symmetric] by (simp add: z p progress0_def)
qed

subsection \<open>No fail-fast, no propagation\<close>

text \<open>
  C7. In every reachable state: when the \<open>executeOperation\<close> a pass awaits settles,
  however it settles, the pass goes on to the next operation of its snapshot; a suspended
  pass has attempted exactly the operations of its snapshot before the one it waits on,
  in order, and all of them when it waits on its write; no promise has rejected with an
  operation's error (only a storage error rejects); an awaited pass whose write resolves
  returns the two counters.
\<close>

theorem no_fail_fast_no_propagation:
  assumes "reachable s"
  shows "(\<forall>p queue operation next todo prog.
            tasks s p = Some (PQ_execute queue (operation # next # todo) prog) \<longrightarrow>
            tasks (step (Execute_settles p net) s) p =
              Some (PQ_execute queue (next # todo) (attempt operation net prog))) \<and>
         (\<forall>p queue todo prog.
            tasks s p = Some (PQ_execute queue todo prog) \<longrightarrow> attempted prog @ todo = queue) \<and>
         (\<forall>p queue prog. tasks s p = Some (PQ_setItem queue prog) \<longrightarrow> attempted prog = queue) \<and>
         (\<forall>p e. settled s p = Some (Inl e) \<longrightarrow> e = StorageError) \<and>
         (ready s \<longrightarrow>
            settled (processQueue True nets True s) (promises s) =
              Some (Inr (Tally (success (pass_outcome nets (stored s)))
                               (failed (pass_outcome nets (stored s))))) \<and>
            attempted (pass_outcome nets (stored s)) = stored s)"
proof -
  have 1: "tasks (step (Execute_settles p net) s) p =
              Some (PQ_execute queue (next # todo) (attempt operation net prog))"
    if "tasks s p = Some (PQ_execute queue (operation # next # todo) prog)"
    for p queue operation "next" todo prog
    using that by (simp add: execute_settles_def continue_pass_def)
  from assms have snd: "sound_tasks (tasks s)"
    using reachable_sound by (simp add: sound_def)
  have 2: "attempted prog @ todo = queue"
    if "tasks s p = Some (PQ_execute queue todo prog)" for p queue todo prog
    using sound_tasksD [OF snd that] by (auto simp add: processOps_attempted progress0_def)
  have 3: "attempted prog = queue"
    if "tasks s p = Some (PQ_setItem queue prog)" for p queue prog
    using sound_tasksD [OF snd that]
    by (auto simp add: pass_outcome_def processOps_attempted progress0_def)
  from assms have 4: "settled s p = Some (Inl e) \<Longrightarrow> e = StorageError" for p e
    using reachable_ose by (simp add: only_storage_errors_def)
  have 5: "settled (processQueue True nets True s) (promises s) =
              Some (Inr (Tally (success (pass_outcome nets (stored s)))
                               (failed (pass_outcome nets (stored s))))) \<and>
            attempted (pass_outcome nets (stored s)) = stored s"
    if "ready s"
    using that
    by (simp add: ready_def processQueue_idle Let_def pass_outcome_def processOps_attempted
        progress0_def)
  show ?thesis
    using 1 2 3 4 5 by blast
qed

theorem no_fail_fast_no_propagation_witness:
  "tasks (run [Call_processQueue, Storage_settles 0 True, Execute_settles 0 (Resolved 200)]
       (init (Some [unwired, expense]))) 0 =
     Some (PQ_execute [unwired, expense] [expense]
       \<lparr>remaining = [unwired\<lparr>retries := 1\<rparr>], success = 0, failed = 0, attempted = [unwired]\<rparr>)"
proof -
  define s where "s = run [Call_processQueue, Storage_settles 0 True] (init (Some [unwired, expense]))"
  have r: "reachable s" unfolding s_def by (rule reachable_run) (rule reachable.start)
  have t: "tasks s 0 = Some (PQ_execute [unwired, expense] (unwired # expense # []) progress0)"
    by (simp add: s_def processQueue_call_def storage_settles_def getQueue_def continue_pass_def
        init_def Let_def)
  have e: "executeOperation unwired (Resolved 200) = Inl (UnknownOperationType create_order)"
    by (simp add: executeOperation_def request_of_def unwired_def)
  have a: "attempt unwired (Resolved 200) progress0 =
     \<lparr>remaining = [unwired\<lparr>retries := 1\<rparr>], success = 0, failed = 0, attempted = [unwired]\<rparr>"
    by (simp add: attempt_failure [OF e] progress0_def) (simp add: unwired_def)
  from no_fail_fast_no_propagation [OF r, of "Resolved 200"] t
  have "tasks (step (Execute_settles 0 (Resolved 200)) s) 0 =
          Some (PQ_execute [unwired, expense] [expense] (attempt unwired (Resolved 200) progress0))"
    by blast
  then show ?thesis
    by (simp add: s_def a)
qed

subsection \<open>Kinds without a branch\<close>

text \<open>
  C8. An operation whose type is none of the four the \<open>switch\<close> handles (so
  \<open>create_order\<close>, or any string outside the declared union): \<open>executeOperation\<close>
  throws before sending anything, the loop counts a failed attempt (\<open>retries\<close> plus one,
  kept below three and dropped with \<open>failed\<close> plus one at three), and the pass around it
  completes and returns its counters.
\<close>

theorem unknown_kind_is_a_failed_attempt:
  assumes "op_type operation \<notin> {create_product, update_product, restock, log_expense}"
  shows "executeOperation operation net = Inl (UnknownOperationType (op_type operation)) \<and>
         attempt operation net p =
           (if retries operation + 1 < 3
            then p\<lparr>attempted := attempted p @ [operation],
                   remaining := remaining p @ [operation\<lparr>retries := retries operation + 1\<rparr>]\<rparr>
            else p\<lparr>attempted := attempted p @ [operation], failed := failed p + 1\<rparr>) \<and>
         (ready s \<and> stored s = xs @ operation # ys \<longrightarrow>
            settled (processQueue True nets True s) (promises s) =
              Some (Inr (Tally
                (success (pass_outcome nets xs) +
                 success (processOps nets (Suc (length xs)) ys progress0))
                (failed (pass_outcome nets xs) + (if retries operation + 1 < 3 then 0 else 1) +
                 failed (processOps nets (Suc (length xs)) ys progress0)))) \<and>
            storage (processQueue True nets True s) =
              Some (remaining (pass_outcome nets xs) @
                    (if retries operation + 1 < 3
                     then [operation\<lparr>retries := retries operation + 1\<rparr>] else []) @
                    remaining (processOps nets (Suc (length xs)) ys progress0)))"
proof -
  have e: "executeOperation operation n = Inl (UnknownOperationType (op_type operation))" for n
    using assms by (cases "op_type operation") (simp_all add: executeOperation_def request_of_def)
  note f = pass_outcome_failure [where net = nets and xs = xs and ys = ys, OF e]
  show ?thesis
    using e [of net] f
    by (auto simp add: attempt_failure [OF e] ready_def processQueue_idle Let_def)
qed

theorem unknown_kind_is_a_failed_attempt_witness:
  "executeOperation (expense\<lparr>op_type := create_order\<rparr>) (Resolved 200) =
     Inl (UnknownOperationType create_order) \<and>
   storage (processQueue True (\<lambda>k. Resolved 200) True
      (init (Some [expense\<lparr>op_type := create_order\<rparr>, expense]))) =
     Some [expense\<lparr>op_type := create_order, retries := 1\<rparr>] \<and>
   settled (processQueue True (\<lambda>k. Resolved 200) True
      (init (Some [expense\<lparr>op_type := create_order\<rparr>, expense]))) 0 =
     Some (Inr (Tally 1 0))"
proof -
  define operation where "operation = expense\<lparr>op_type := create_order\<rparr>"
  define s where "s = init (Some [operation, expense])"
  have h: "op_type operation \<notin> {create_product, update_product, restock, log_expense}"
    by (simp add: operation_def)
  have r: "ready s \<and> stored s = [] @ operation # [expense]"
    by (simp add: ready_def s_def init_def stored_def)
  have e: "executeOperation expense (Resolved 200) = Inr ()"
    by (simp add: executeOperation_def request_of_def expense_def)
  have o: "attempt expense (Resolved 200)
       \<lparr>remaining = [], success = 0, failed = 0, attempted = []\<rparr> =
     \<lparr>remaining = [], success = 1, failed = 0, attempted = [expense]\<rparr>"
    by (simp add: attempt_def e)
  have z: "pass_outcome (\<lambda>k. Resolved 200) [] = progress0"
    by (simp add: pass_outcome_def)
  have n: "retries operation = 0" "promises s = 0"
    by (simp_all add: operation_def expense_def s_def init_def)
  from unknown_kind_is_a_failed_attempt [OF h, of "Resolved 200" progress0 s "[]" "[expense]"
      "\<lambda>k. Resolved 200"] r
  show ?thesis
    unfolding operation_def [symmetric] s_def [symmetric]
    by (simp add: o z n progress0_def) (simp add: operation_def)
qed

subsection \<open>Reconnect triggers replay\<close>



subsection \<open>The final write replaces what was stored meanwhile\<close>

text \<open>
  C10. A pass about to read, its read, then any events, after which the pass waits on
  its final write: its local \<open>queue\<close> is still what it read, its \<open>remaining\<close> is
  computed from that snapshot, and the write stores exactly \<open>remaining\<close>. An operation
  in storage at that moment whose id was not in the snapshot (it was enqueued and
  persisted in between) is not in storage afterwards.
\<close>

theorem late_enqueue_is_overwritten:
  assumes "reachable s" "tasks s p = Some PQ_getQueue"
    and "tasks (run (Storage_settles p True # es) s) p = Some (PQ_setItem queue prog)"
    and "storage (run (Storage_settles p True # es) s) = Some current"
    and "operation \<in> set current" "op_id operation \<notin> op_id ` set (stored s)"
  shows "queue = stored s \<and>
         (\<exists>net. prog = pass_outcome net (stored s)) \<and>
         storage (run (Storage_settles p True # es @ [Storage_settles p True]) s) =
           Some (remaining prog) \<and>
         op_id operation \<notin> op_id ` set (remaining prog)"
proof -
  define s' where "s' = run (Storage_settles p True # es) s"
  have i: "inv s" using assms(1) by (rule reachable_inv)
  have "keeps (storage_settles p True s) p (stored s)"
    using i assms(2) by (rule keeps_after_read)
  then have "keeps s' p (stored s)"
    unfolding s'_def by (simp add: keeps_run)
  then have q: "queue = stored s"
    using assms(3) by (simp add: keeps_def s'_def)
  have "reachable s'"
    unfolding s'_def using assms(1) by (rule reachable_run)
  then have "sound_tasks (tasks s')"
    using reachable_sound by (simp add: sound_def)
  from sound_tasksD [OF this, of p "PQ_setItem queue prog"] assms(3)
  obtain net where n: "prog = pass_outcome net queue"
    by (auto simp add: s'_def)
  have w: "storage (run (Storage_settles p True # es @ [Storage_settles p True]) s) =
      Some (remaining prog)"
    using assms(3) by (simp add: run_append storage_settles_def Let_def)
  have "op_id ` set (remaining prog) \<subseteq> op_id ` set queue"
    using processOps_ids [of net 0 queue progress0] n
    by (simp add: pass_outcome_def progress0_def)
  then have "op_id operation \<notin> op_id ` set (remaining prog)"
    using assms(6) q by auto
  with q n w show ?thesis by blast
qed

theorem late_enqueue_is_overwritten_witness:
  "storage (run [Call_processQueue, Storage_settles 0 True,
        Call_enqueue restock Null 12 ''xyz'' 12, Storage_settles 1 True, Storage_settles 1 True,
        Execute_settles 0 Rejected] (init (Some [expense]))) =
     Some [expense, new_operation restock Null 12 ''xyz'' 12] \<and>
   storage (run [Call_processQueue, Storage_settles 0 True,
        Call_enqueue restock Null 12 ''xyz'' 12, Storage_settles 1 True, Storage_settles 1 True,
        Execute_settles 0 Rejected, Storage_settles 0 True] (init (Some [expense]))) =
     Some [expense\<lparr>retries := 1\<rparr>]"
proof -
  define s where "s = run [Call_processQueue] (init (Some [expense]))"
  define es where "es = [Call_enqueue restock Null 12 ''xyz'' 12, Storage_settles 1 True,
    Storage_settles 1 True, Execute_settles 0 Rejected]"
  define new where "new = new_operation restock Null 12 ''xyz'' 12"
  define prog where "prog = \<lparr>remaining = [expense\<lparr>retries := 1\<rparr>], success = 0, failed = 0,
    attempted = [expense]\<rparr>"
  have r: "reachable s" unfolding s_def by (rule reachable_run) (rule reachable.start)
  have t: "tasks s 0 = Some PQ_getQueue" and st: "stored s = [expense]"
    by (simp_all add: s_def processQueue_call_def init_def Let_def stored_def)
  have e: "executeOperation expense Rejected = Inl NetworkError"
    by (simp add: executeOperation_def request_of_def expense_def)
  have a: "attempt expense Rejected progress0 = prog"
    by (simp add: attempt_failure [OF e] progress0_def prog_def) (simp add: expense_def)
  have run: "tasks (run (Storage_settles 0 True # es) s) 0 = Some (PQ_setItem [expense] prog)"
    and cur: "storage (run (Storage_settles 0 True # es) s) = Some [expense, new]"
    by (simp_all add: s_def es_def processQueue_call_def storage_settles_def getQueue_def
        continue_pass_def enqueue_call_def execute_settles_def init_def Let_def a new_def)
  have mem: "new \<in> set [expense, new]" by simp
  have d: "decimal 12 = ''12''" by code_simp
  have fresh: "op_id new \<notin> op_id ` set (stored s)"
    by (simp add: st new_def d) (simp add: expense_def)
  from late_enqueue_is_overwritten [OF r t run cur mem fresh]
  have "storage (run (Storage_settles 0 True # es @ [Storage_settles 0 True]) s) = Some (remaining prog)"
    by blast
  then show ?thesis
    using cur by (simp add: s_def es_def prog_def new_def)
qed

end
